theory Spec2Isabelle
  imports Complex_Main "HOL-Library.AList"
begin

section \<open>The ledger: three SQLite tables behind one connection\<close>

text \<open>
  \<^verbatim>\<open>BC_Analyzer.py\<close> reads three tables, \<^verbatim>\<open>TRANSACT\<close>, \<^verbatim>\<open>INPUTS\<close> and
  \<^verbatim>\<open>OUTPUTS\<close>, and never writes to them. A \<^verbatim>\<open>recipient\<close> or \<^verbatim>\<open>value\<close> column
  may hold SQL \<^verbatim>\<open>NULL\<close>, which Python sees as \<^verbatim>\<open>None\<close>; the code itself filters
  \<^verbatim>\<open>spending_transaction_hash IS NOT NULL\<close>. Python floats are modelled as reals
  (rounding is not modelled).
\<close>

type_synonym address = "string option"
type_synonym amount = "real option"

record tx_row =
  tx_hash :: string
  tx_time :: string
  input_total :: amount
  output_total :: amount

record input_row =
  in_transaction_hash :: string
  in_recipient :: address
  in_value :: amount
  spending_transaction_hash :: "string option"

record output_row =
  out_transaction_hash :: string
  out_recipient :: address
  out_value :: amount

text \<open>The five \<^verbatim>\<open>SELECT\<close> statements of the analyzer, with their parameter.\<close>

datatype query =
    SelectTransact string
  | SelectInputs string
  | SelectOutputs string
  | SelectSpending address
  | SelectWallet string

text \<open>
  Everything outside the analyzer object: the tables, the queries on which
  \<^verbatim>\<open>conn.execute\<close> raises \<^verbatim>\<open>sqlite3.Error\<close>, and the date conversion of lines 65-73
  (\<^verbatim>\<open>strptime\<close>, then \<^verbatim>\<open>fromtimestamp(int(...))\<close>, then \<^verbatim>\<open>strftime('%Y-%m-%d')\<close>), which
  belongs to the \<^verbatim>\<open>datetime\<close> library and the local time zone: \<open>None\<close> when both
  parse attempts raise.
\<close>

record env =
  TRANSACT :: "tx_row list"
  INPUTS :: "input_row list"
  OUTPUTS :: "output_row list"
  sqlite_error :: "query \<Rightarrow> bool"
  tx_date_of :: "string \<Rightarrow> string option"

definition select_transact :: "env \<Rightarrow> string \<Rightarrow> tx_row option" where
  "select_transact db h = find (\<lambda>r. tx_hash r = h) (TRANSACT db)"

definition select_inputs :: "env \<Rightarrow> string \<Rightarrow> (address \<times> amount) list" where
  "select_inputs db h =
     map (\<lambda>r. (in_recipient r, in_value r))
       (filter (\<lambda>r. in_transaction_hash r = h) (INPUTS db))"

definition select_outputs :: "env \<Rightarrow> string \<Rightarrow> (address \<times> amount) list" where
  "select_outputs db h =
     map (\<lambda>r. (out_recipient r, out_value r))
       (filter (\<lambda>r. out_transaction_hash r = h) (OUTPUTS db))"

text \<open>
  \<^verbatim>\<open>WHERE recipient = ? AND spending_transaction_hash IS NOT NULL\<close>: a \<^verbatim>\<open>NULL\<close>
  parameter matches no row.
\<close>

definition select_spending :: "env \<Rightarrow> address \<Rightarrow> string list" where
  "select_spending db a =
     (case a of
        None \<Rightarrow> []
      | Some w \<Rightarrow>
          concat (map (\<lambda>r. case spending_transaction_hash r of
                              None \<Rightarrow> [] | Some s \<Rightarrow> [s])
                    (filter (\<lambda>r. in_recipient r = Some w) (INPUTS db))))"

text \<open>
  The \<^verbatim>\<open>UNION\<close> of the two recipient queries of \<^verbatim>\<open>build_graph\<close>: duplicates are
  removed; the order of the rows is not fixed by SQL and is taken as first occurrence.
\<close>

definition select_wallet :: "env \<Rightarrow> string \<Rightarrow> string list" where
  "select_wallet db w =
     remdups
       (map in_transaction_hash (filter (\<lambda>r. in_recipient r = Some w) (INPUTS db)) @
        map out_transaction_hash (filter (\<lambda>r. out_recipient r = Some w) (OUTPUTS db)))"

section \<open>The analyzer object\<close>

datatype exn = ValueError | TypeError

record edge_attr =
  edge_tx_id :: string
  edge_value :: amount
  edge_date :: string

record node_attr =
  node_balance :: "real option"
  node_label :: "(string \<times> string \<times> real) option"

text \<open>
  \<^verbatim>\<open>nx.DiGraph()\<close>: a dictionary of nodes and, for each ordered pair of nodes, at most
  one attribute dictionary. The nested adjacency dictionaries are flattened to one
  insertion-ordered dictionary keyed by the pair.
\<close>

record digraph =
  nodes :: "(address \<times> node_attr) list"
  edges :: "((address \<times> address) \<times> edge_attr) list"

text \<open>
  The three fields set by \<^verbatim>\<open>__init__\<close>, and a trace of the statements given to
  \<^verbatim>\<open>conn.execute\<close>, each with the \<^verbatim>\<open>current_depth\<close> of the call that issued it
  (0 for \<^verbatim>\<open>build_graph\<close>). The trace is not a field of the source; it records the
  reads the source performs.
\<close>

record state =
  G :: digraph
  wallet_balances :: "(address \<times> real) list"
  visited_transactions :: "string set"
  executed :: "(int \<times> query) list"

definition init :: state where
  "init = \<lparr>G = \<lparr>nodes = [], edges = []\<rparr>, wallet_balances = [],
            visited_transactions = {}, executed = []\<rparr>"

definition execute :: "int \<Rightarrow> query \<Rightarrow> state \<Rightarrow> state" where
  "execute d q st = st\<lparr>executed := executed st @ [(d, q)]\<rparr>"

text \<open>\<^verbatim>\<open>self.wallet_balances.get(wallet, 0.0)\<close>\<close>

definition balance_of :: "state \<Rightarrow> address \<Rightarrow> real" where
  "balance_of st w = (case map_of (wallet_balances st) w of None \<Rightarrow> 0 | Some b \<Rightarrow> b)"

definition update_wallet_balance :: "address \<Rightarrow> real \<Rightarrow> state \<Rightarrow> state" where
  "update_wallet_balance w a st =
     st\<lparr>wallet_balances := AList.update w (balance_of st w + a) (wallet_balances st)\<rparr>"

text \<open>\<^verbatim>\<open>float(x)\<close> raises \<^verbatim>\<open>TypeError\<close> on \<^verbatim>\<open>None\<close>.\<close>

definition py_float :: "amount \<Rightarrow> exn + real" where
  "py_float v = (case v of None \<Rightarrow> Inl TypeError | Some x \<Rightarrow> Inr x)"

definition add_node :: "address \<Rightarrow> digraph \<Rightarrow> digraph" where
  "add_node u g =
     (if u \<in> fst ` set (nodes g) then g
      else g\<lparr>nodes := nodes g @ [(u, \<lparr>node_balance = None, node_label = None\<rparr>)]\<rparr>)"

text \<open>
  \<^verbatim>\<open>DiGraph.add_edge(u, v, **attr)\<close> of networkx: a new endpoint is added as a node,
  unless it is \<^verbatim>\<open>None\<close>, which raises \<^verbatim>\<open>ValueError("None cannot be a node")\<close>; then
  the attributes of the pair are updated, so a second call on the same pair replaces
  \<^verbatim>\<open>tx_id\<close>, \<^verbatim>\<open>value\<close> and \<^verbatim>\<open>date\<close> and adds no edge.
\<close>

definition add_edge :: "address \<Rightarrow> address \<Rightarrow> edge_attr \<Rightarrow> digraph \<Rightarrow> digraph \<times> exn option" where
  "add_edge u v a g =
     (if u \<notin> fst ` set (nodes g) \<and> u = None then (g, Some ValueError)
      else let g1 = add_node u g in
        if v \<notin> fst ` set (nodes g1) \<and> v = None then (g1, Some ValueError)
        else let g2 = add_node v g1 in
          (g2\<lparr>edges := AList.update (u, v) a (edges g2)\<rparr>, None))"

text \<open>Lines 92-101: the inner loop, for one input record.\<close>

fun emit_outputs ::
  "string \<Rightarrow> string \<Rightarrow> address \<times> amount \<Rightarrow> (address \<times> amount) list \<Rightarrow> state
    \<Rightarrow> state \<times> exn option" where
  "emit_outputs h dt inp [] st = (st, None)"
| "emit_outputs h dt inp (out # outs) st =
     (case add_edge (fst inp) (fst out)
             \<lparr>edge_tx_id = h, edge_value = snd out, edge_date = dt\<rparr> (G st) of
        (g, Some e) \<Rightarrow> (st\<lparr>G := g\<rparr>, Some e)
      | (g, None) \<Rightarrow>
          (case py_float (snd inp) of
             Inl e \<Rightarrow> (st\<lparr>G := g\<rparr>, Some e)
           | Inr x \<Rightarrow>
               let st1 = update_wallet_balance (fst inp) (- x) (st\<lparr>G := g\<rparr>) in
               (case py_float (snd out) of
                  Inl e \<Rightarrow> (st1, Some e)
                | Inr y \<Rightarrow>
                    emit_outputs h dt inp outs
                      (update_wallet_balance (fst out) y st1))))"

text \<open>Lines 91-101: the outer loop over the input records.\<close>

fun emit_edges ::
  "string \<Rightarrow> string \<Rightarrow> (address \<times> amount) list \<Rightarrow> (address \<times> amount) list \<Rightarrow> state
    \<Rightarrow> state \<times> exn option" where
  "emit_edges h dt [] outs st = (st, None)"
| "emit_edges h dt (inp # ins) outs st =
     (case emit_outputs h dt inp outs st of
        (st1, Some e) \<Rightarrow> (st1, Some e)
      | (st1, None) \<Rightarrow> emit_edges h dt ins outs st1)"


text \<open>
  Lines 50-101 of \<^verbatim>\<open>_process_transaction\<close>, the part before the recursion: mark the
  hash visited, fetch the record, convert the date, fetch the input and output records,
  emit the edges. \<open>Stop\<close> is a \<^verbatim>\<open>return\<close> (with \<open>None\<close>) or an exception that
  leaves the method; \<open>Continue\<close> hands the output records to lines 103-117.
\<close>

datatype fetched = Stop "exn option" | Continue "(address \<times> amount) list"

definition expand_one :: "env \<Rightarrow> string \<Rightarrow> int \<Rightarrow> state \<Rightarrow> state \<times> fetched" where
  "expand_one db h d st =
     (let st1 = st\<lparr>visited_transactions := insert h (visited_transactions st)\<rparr>;
          st2 = execute d (SelectTransact h) st1
      in
      if sqlite_error db (SelectTransact h) then (st2, Stop None)
      else case select_transact db h of
        None \<Rightarrow> (st2, Stop None)
      | Some tx_data \<Rightarrow>
          (case tx_date_of db (tx_time tx_data) of
             None \<Rightarrow> (st2, Stop None)
           | Some dt \<Rightarrow>
               let st3 = execute d (SelectInputs (tx_hash tx_data)) st2 in
               if sqlite_error db (SelectInputs (tx_hash tx_data)) then (st3, Stop None)
               else
                 let st4 = execute d (SelectOutputs (tx_hash tx_data)) st3 in
                 if sqlite_error db (SelectOutputs (tx_hash tx_data)) then (st4, Stop None)
                 else
                   let inputs = select_inputs db (tx_hash tx_data);
                       outputs = select_outputs db (tx_hash tx_data)
                   in
                   (case emit_edges (tx_hash tx_data) dt inputs outputs st4 of
                      (st5, Some e) \<Rightarrow> (st5, Stop (Some e))
                    | (st5, None) \<Rightarrow> (st5, Continue outputs))))"

text \<open>
  \<^verbatim>\<open>_process_transaction\<close>. The first argument bounds the depth of the Python call
  stack: each call of \<^verbatim>\<open>_process_transaction\<close> takes one unit, and \<open>None\<close> says that
  the bound was too small. The result is the state the object is left in and the
  exception in flight, if any. \<open>process_each\<close> is the loop
  \<^verbatim>\<open>for (next_tx,) in next_txs\<close> (and the seeding loop of \<^verbatim>\<open>build_graph\<close>),
  \<open>process_outputs\<close> the loop \<^verbatim>\<open>for output in outputs\<close> of lines 105-117.
\<close>

function (sequential) process_transaction ::
      "nat \<Rightarrow> env \<Rightarrow> string \<Rightarrow> int \<Rightarrow> int \<Rightarrow> state \<Rightarrow> (state \<times> exn option) option"
  and process_each ::
      "nat \<Rightarrow> env \<Rightarrow> string list \<Rightarrow> int \<Rightarrow> int \<Rightarrow> state \<Rightarrow> (state \<times> exn option) option"
  and process_outputs ::
      "nat \<Rightarrow> env \<Rightarrow> (address \<times> amount) list \<Rightarrow> int \<Rightarrow> int \<Rightarrow> int \<Rightarrow> state
        \<Rightarrow> (state \<times> exn option) option"
where
  "process_transaction 0 db h d m st = None"
| "process_transaction (Suc n) db h d m st =
     (if h \<in> visited_transactions st then Some (st, None)
      else
        case expand_one db h d st of
          (st5, Stop e) \<Rightarrow> Some (st5, e)
        | (st5, Continue outputs) \<Rightarrow>
            if m = 0 \<or> d < m
            then process_outputs n db outputs d (d + 1) m st5
            else Some (st5, None))"
| "process_each n db [] d m st = Some (st, None)"
| "process_each n db (next_tx # next_txs) d m st =
     (case process_transaction n db next_tx d m st of
        None \<Rightarrow> None
      | Some (st1, Some e) \<Rightarrow> Some (st1, Some e)
      | Some (st1, None) \<Rightarrow> process_each n db next_txs d m st1)"
| "process_outputs n db [] d next_depth m st = Some (st, None)"
| "process_outputs n db (out # outs) d next_depth m st =
     (let st1 = execute d (SelectSpending (fst out)) st in
      if sqlite_error db (SelectSpending (fst out))
      then process_outputs n db outs d next_depth m st1
      else
        case process_each n db (select_spending db (fst out)) next_depth m st1 of
          None \<Rightarrow> None
        | Some (st2, Some e) \<Rightarrow> Some (st2, Some e)
        | Some (st2, None) \<Rightarrow> process_outputs n db outs d next_depth m st2)"
  by pat_completeness auto
termination
  by (relation "inv_image (less_than <*lex*> less_than <*lex*> less_than)
        (\<lambda>x. case x of
           Inl (n, db, h, d, m, st) \<Rightarrow> (n, 0::nat, 0::nat)
         | Inr (Inl (n, db, xs, d, m, st)) \<Rightarrow> (n, 1, length xs)
         | Inr (Inr (n, db, outs, d, nd, m, st)) \<Rightarrow> (n, 2, length outs))") auto

text \<open>
  Lines 141-144: each node gets its balance and a label. The label is formatted from
  the first six and the last four characters of the node and from the balance; the
  three parts are kept unformatted. Slicing \<^verbatim>\<open>None\<close> raises \<^verbatim>\<open>TypeError\<close>.
\<close>

fun assign_attributes ::
  "state \<Rightarrow> (address \<times> node_attr) list \<Rightarrow> (address \<times> node_attr) list \<times> exn option" where
  "assign_attributes st [] = ([], None)"
| "assign_attributes st ((node, a) # ns) =
     (let b = balance_of st node in
      case node of
        None \<Rightarrow> ((node, a\<lparr>node_balance := Some b\<rparr>) # ns, Some TypeError)
      | Some s \<Rightarrow>
          (case assign_attributes st ns of
             (ns1, e) \<Rightarrow>
               ((node, a\<lparr>node_balance := Some b,
                         node_label := Some (take 6 s, drop (length s - 4) s, b)\<rparr>) # ns1, e)))"

definition finish :: "state \<Rightarrow> state \<times> exn option" where
  "finish st =
     (case assign_attributes st (nodes (G st)) of
        (ns, e) \<Rightarrow> (st\<lparr>G := (G st)\<lparr>nodes := ns\<rparr>\<rparr>, e))"

text \<open>\<^verbatim>\<open>build_graph\<close>, on the object in state \<open>st\<close>.\<close>

definition build_graph ::
  "nat \<Rightarrow> env \<Rightarrow> string \<Rightarrow> int \<Rightarrow> state \<Rightarrow> (state \<times> exn option) option" where
  "build_graph n db target max_depth st =
     (if length target = 64 then
        (case process_transaction n db target 1 max_depth st of
           None \<Rightarrow> None
         | Some (st1, Some e) \<Rightarrow> Some (st1, Some e)
         | Some (st1, None) \<Rightarrow> Some (finish st1))
      else
        let st0 = execute 0 (SelectWallet target) st in
        if sqlite_error db (SelectWallet target) then Some (st0, None)
        else
          (case process_each n db (select_wallet db target) 1 max_depth st0 of
             None \<Rightarrow> None
           | Some (st1, Some e) \<Rightarrow> Some (st1, Some e)
           | Some (st1, None) \<Rightarrow> Some (finish st1)))"

text \<open>
  \<^verbatim>\<open>main\<close>, from the two values read from \<^verbatim>\<open>config.ini\<close> to the point where the
  exporters are called: \<open>Inl\<close> is the exception that one of the \<^verbatim>\<open>except\<close> clauses
  prints, \<open>Inr\<close> the analyzer handed to the exporters.
\<close>

definition main :: "nat \<Rightarrow> env \<Rightarrow> string \<Rightarrow> int \<Rightarrow> (exn + state) option" where
  "main n db target max_depth =
     (if \<not> (length target = 34 \<or> length target = 62) then Some (Inl ValueError)
      else
        case build_graph n db target max_depth init of
          None \<Rightarrow> None
        | Some (st, Some e) \<Rightarrow> Some (Inl e)
        | Some (st, None) \<Rightarrow> Some (Inr st))"

section \<open>Notions used to state the properties\<close>

text \<open>
  The state after \<^verbatim>\<open>self.visited_transactions.add(tx_hash)\<close> and the statements
  \<open>qs\<close>, executed at depth \<open>d\<close>.
\<close>

definition fetching :: "string \<Rightarrow> int \<Rightarrow> query list \<Rightarrow> state \<Rightarrow> state" where
  "fetching h d qs st =
     st\<lparr>visited_transactions := insert h (visited_transactions st),
        executed := executed st @ map (Pair d) qs\<rparr>"

text \<open>
  The transactions whose record was asked for, in order: line 53 runs exactly once in
  every call of \<^verbatim>\<open>_process_transaction\<close> that gets past the visited check.
\<close>

definition expansions :: "state \<Rightarrow> string list" where
  "expansions st =
     concat (map (\<lambda>x. case snd x of SelectTransact h \<Rightarrow> [h] | _ \<Rightarrow> []) (executed st))"

text \<open>The hashes that a successor lookup can return.\<close>

definition spenders :: "env \<Rightarrow> string set" where
  "spenders db = {s. \<exists>r \<in> set (INPUTS db). spending_transaction_hash r = Some s}"

text \<open>
  \<open>successor db x y\<close>: expanding \<open>x\<close> gets as far as the successor lookups, and the
  lookup for one of its outputs returns \<open>y\<close>.
\<close>

definition successor :: "env \<Rightarrow> string \<Rightarrow> string \<Rightarrow> bool" where
  "successor db x y \<longleftrightarrow>
     \<not> sqlite_error db (SelectTransact x) \<and>
     (\<exists>row. select_transact db x = Some row \<and> tx_date_of db (tx_time row) \<noteq> None) \<and>
     \<not> sqlite_error db (SelectInputs x) \<and>
     \<not> sqlite_error db (SelectOutputs x) \<and>
     (\<exists>out \<in> set (select_outputs db x).
        \<not> sqlite_error db (SelectSpending (fst out)) \<and>
        y \<in> set (select_spending db (fst out)))"

text \<open>
  Every record was fetched at most once, and only for transactions in the visited set.
\<close>

definition once :: "state \<Rightarrow> bool" where
  "once st \<longleftrightarrow> distinct (expansions st) \<and> set (expansions st) \<subseteq> visited_transactions st"

text \<open>
  Every statement executed between \<open>st\<close> and \<open>st'\<close> was issued by a call whose
  \<^verbatim>\<open>current_depth\<close> lies between \<open>d\<close> and \<open>m\<close>.
\<close>

definition in_depth :: "int \<Rightarrow> int \<Rightarrow> state \<Rightarrow> state \<Rightarrow> bool" where
  "in_depth d m st st' \<longleftrightarrow>
     (\<forall>x \<in> set (executed st'). x \<in> set (executed st) \<or> (d \<le> fst x \<and> fst x \<le> m))"

text \<open>
  Between \<open>st\<close> and \<open>st'\<close> nothing left the visited set, and every successor of a
  transaction visited in between is visited in \<open>st'\<close>.
\<close>

definition closed_under :: "env \<Rightarrow> state \<Rightarrow> state \<Rightarrow> bool" where
  "closed_under db st st' \<longleftrightarrow>
     visited_transactions st \<subseteq> visited_transactions st' \<and>
     (\<forall>x \<in> visited_transactions st' - visited_transactions st.
        \<forall>y. successor db x y \<longrightarrow> y \<in> visited_transactions st')"

text \<open>
  Between \<open>st\<close> and \<open>st'\<close> nothing was removed from the visited set, from the edges
  and nodes of the graph, or from the balance ledger.
\<close>

definition kept :: "state \<Rightarrow> state \<Rightarrow> bool" where
  "kept st st' \<longleftrightarrow>
     visited_transactions st \<subseteq> visited_transactions st' \<and>
     fst ` set (edges (G st)) \<subseteq> fst ` set (edges (G st')) \<and>
     fst ` set (nodes (G st)) \<subseteq> fst ` set (nodes (G st')) \<and>
     fst ` set (wallet_balances st) \<subseteq> fst ` set (wallet_balances st')"

text \<open>
  An edge is well-formed for a ledger: both endpoints are addresses, the sender is the
  recipient of an input record and the receiver the recipient of an output record of
  the transaction the edge names, and the edge carries that output record's value.
\<close>

definition edge_ok :: "env \<Rightarrow> (address \<times> address) \<times> edge_attr \<Rightarrow> bool" where
  "edge_ok db e \<longleftrightarrow>
     fst (fst e) \<noteq> None \<and> snd (fst e) \<noteq> None \<and>
     fst (fst e) \<in> fst ` set (select_inputs db (edge_tx_id (snd e))) \<and>
     (snd (fst e), edge_value (snd e)) \<in> set (select_outputs db (edge_tx_id (snd e)))"

definition graph_ok :: "env \<Rightarrow> state \<Rightarrow> bool" where
  "graph_ok db st \<longleftrightarrow>
     None \<notin> fst ` set (nodes (G st)) \<and> (\<forall>e \<in> set (edges (G st)). edge_ok db e)"

text \<open>
  Records without \<^verbatim>\<open>NULL\<close>, as the two queries of lines 76-86 return them.
\<close>

definition present :: "(string \<times> real) list \<Rightarrow> (address \<times> amount) list" where
  "present rs = map (\<lambda>r. (Some (fst r), Some (snd r))) rs"

text \<open>
  One pass through the body of the inner loop (lines 93-101) for the input record \<open>i\<close>
  and the output record \<open>out\<close>, when nothing raises: the call of \<^verbatim>\<open>add_edge\<close>, the
  debit of the sender and the credit of the receiver.
\<close>

definition emit_pair :: "string \<Rightarrow> string \<Rightarrow> string \<times> real \<Rightarrow> string \<times> real \<Rightarrow> state \<Rightarrow> state" where
  "emit_pair h dt i out st =
     update_wallet_balance (Some (fst out)) (snd out)
       (update_wallet_balance (Some (fst i)) (- snd i)
          (st\<lparr>G := fst (add_edge (Some (fst i)) (Some (fst out))
                          \<lparr>edge_tx_id = h, edge_value = Some (snd out), edge_date = dt\<rparr>
                          (G st))\<rparr>))"

text \<open>The sum of the values of the records of \<open>rs\<close> that name the address \<open>a\<close>.\<close>

definition total_of :: "string \<Rightarrow> (string \<times> real) list \<Rightarrow> real" where
  "total_of a rs = sum_list (map snd (filter (\<lambda>r. fst r = a) rs))"

text \<open>The ordered pairs (sender, receiver) of the cross product.\<close>

definition pairs :: "(string \<times> real) list \<Rightarrow> (string \<times> real) list \<Rightarrow> (address \<times> address) set" where
  "pairs ins outs = (Some ` fst ` set ins) \<times> (Some ` fst ` set outs)"

text \<open>No \<^verbatim>\<open>recipient\<close> and no \<^verbatim>\<open>value\<close> of the ledger is \<^verbatim>\<open>NULL\<close>.\<close>

definition no_nulls :: "env \<Rightarrow> bool" where
  "no_nulls db \<longleftrightarrow>
     (\<forall>r \<in> set (INPUTS db). in_recipient r \<noteq> None \<and> in_value r \<noteq> None) \<and>
     (\<forall>r \<in> set (OUTPUTS db). out_recipient r \<noteq> None \<and> out_value r \<noteq> None)"

text \<open>The three fields of the object, without the trace.\<close>

definition fields :: "state \<Rightarrow> digraph \<times> (address \<times> real) list \<times> string set" where
  "fields st = (G st, wallet_balances st, visited_transactions st)"

section \<open>Example ledgers\<close>

text \<open>
  A date conversion for the examples: on a well-formed \<^verbatim>\<open>YYYY-MM-DD HH:MM:SS\<close> string,
  the only kind the examples contain, lines 65-73 give its first ten characters.
\<close>

definition date_only :: "string \<Rightarrow> string option" where
  "date_only t = (if length t = 19 then Some (take 10 t) else None)"

text \<open>
  \<^verbatim>\<open>tx1\<close> is the transaction of the end-to-end scenario, and \<^verbatim>\<open>tx2\<close> spends its
  output to \<^verbatim>\<open>B\<close>; \<^verbatim>\<open>tx3\<close> is a second payment from \<^verbatim>\<open>A\<close> to \<^verbatim>\<open>B\<close>; \<^verbatim>\<open>tx4\<close> has
  an input and no output; \<^verbatim>\<open>tx5\<close> has two inputs from one address and three outputs.
\<close>

definition ledger :: env where
  "ledger =
     \<lparr>TRANSACT =
        [\<lparr>tx_hash = ''tx1'', tx_time = ''2024-01-01 00:00:00'',
          input_total = Some 5, output_total = Some 5\<rparr>,
         \<lparr>tx_hash = ''tx2'', tx_time = ''2024-01-02 00:00:00'',
          input_total = Some 3, output_total = Some 3\<rparr>,
         \<lparr>tx_hash = ''tx3'', tx_time = ''2024-01-03 00:00:00'',
          input_total = Some 7, output_total = Some 4\<rparr>,
         \<lparr>tx_hash = ''tx4'', tx_time = ''2024-01-04 00:00:00'',
          input_total = Some 1, output_total = Some 0\<rparr>,
         \<lparr>tx_hash = ''tx5'', tx_time = ''2024-01-05 00:00:00'',
          input_total = Some 3, output_total = Some 3\<rparr>],
      INPUTS =
        [\<lparr>in_transaction_hash = ''tx1'', in_recipient = Some ''A'', in_value = Some 5,
          spending_transaction_hash = None\<rparr>,
         \<lparr>in_transaction_hash = ''tx2'', in_recipient = Some ''B'', in_value = Some 3,
          spending_transaction_hash = Some ''tx2''\<rparr>,
         \<lparr>in_transaction_hash = ''tx3'', in_recipient = Some ''A'', in_value = Some 7,
          spending_transaction_hash = None\<rparr>,
         \<lparr>in_transaction_hash = ''tx4'', in_recipient = Some ''X'', in_value = Some 1,
          spending_transaction_hash = None\<rparr>,
         \<lparr>in_transaction_hash = ''tx5'', in_recipient = Some ''E'', in_value = Some 1,
          spending_transaction_hash = None\<rparr>,
         \<lparr>in_transaction_hash = ''tx5'', in_recipient = Some ''E'', in_value = Some 2,
          spending_transaction_hash = None\<rparr>],
      OUTPUTS =
        [\<lparr>out_transaction_hash = ''tx1'', out_recipient = Some ''B'', out_value = Some 3\<rparr>,
         \<lparr>out_transaction_hash = ''tx1'', out_recipient = Some ''C'', out_value = Some 2\<rparr>,
         \<lparr>out_transaction_hash = ''tx2'', out_recipient = Some ''D'', out_value = Some 3\<rparr>,
         \<lparr>out_transaction_hash = ''tx3'', out_recipient = Some ''B'', out_value = Some 4\<rparr>,
         \<lparr>out_transaction_hash = ''tx5'', out_recipient = Some ''F'', out_value = Some 1\<rparr>,
         \<lparr>out_transaction_hash = ''tx5'', out_recipient = Some ''H'', out_value = Some 1\<rparr>,
         \<lparr>out_transaction_hash = ''tx5'', out_recipient = Some ''K'', out_value = Some 1\<rparr>],
      sqlite_error = (\<lambda>q. False),
      tx_date_of = date_only\<rparr>"

text \<open>
  The analyzer after \<^verbatim>\<open>build_graph('D', 1)\<close> on the first example ledger, and after
  \<^verbatim>\<open>build_graph('C', 1)\<close> on the same object.
\<close>

definition after_D :: state where
  "after_D =
     \<lparr>G = \<lparr>nodes =
            [(Some ''B'', \<lparr>node_balance = Some (- 3), node_label = Some (''B'', ''B'', - 3)\<rparr>),
             (Some ''D'', \<lparr>node_balance = Some 3, node_label = Some (''D'', ''D'', 3)\<rparr>)],
          edges =
            [((Some ''B'', Some ''D''),
              \<lparr>edge_tx_id = ''tx2'', edge_value = Some 3, edge_date = ''2024-01-02''\<rparr>)]\<rparr>,
      wallet_balances = [(Some ''B'', - 3), (Some ''D'', 3)],
      visited_transactions = {''tx2''},
      executed =
        [(0, SelectWallet ''D''), (1, SelectTransact ''tx2''),
         (1, SelectInputs ''tx2''), (1, SelectOutputs ''tx2'')]\<rparr>"

definition after_D_C :: state where
  "after_D_C =
     \<lparr>G = \<lparr>nodes =
            [(Some ''B'', \<lparr>node_balance = Some 0, node_label = Some (''B'', ''B'', 0)\<rparr>),
             (Some ''D'', \<lparr>node_balance = Some 3, node_label = Some (''D'', ''D'', 3)\<rparr>),
             (Some ''A'', \<lparr>node_balance = Some (- 10), node_label = Some (''A'', ''A'', - 10)\<rparr>),
             (Some ''C'', \<lparr>node_balance = Some 2, node_label = Some (''C'', ''C'', 2)\<rparr>)],
          edges =
            [((Some ''B'', Some ''D''),
              \<lparr>edge_tx_id = ''tx2'', edge_value = Some 3, edge_date = ''2024-01-02''\<rparr>),
             ((Some ''A'', Some ''B''),
              \<lparr>edge_tx_id = ''tx1'', edge_value = Some 3, edge_date = ''2024-01-01''\<rparr>),
             ((Some ''A'', Some ''C''),
              \<lparr>edge_tx_id = ''tx1'', edge_value = Some 2, edge_date = ''2024-01-01''\<rparr>)]\<rparr>,
      wallet_balances =
        [(Some ''B'', 0), (Some ''D'', 3), (Some ''A'', - 10), (Some ''C'', 2)],
      visited_transactions = {''tx1'', ''tx2''},
      executed =
        [(0, SelectWallet ''D''), (1, SelectTransact ''tx2''),
         (1, SelectInputs ''tx2''), (1, SelectOutputs ''tx2''),
         (0, SelectWallet ''C''), (1, SelectTransact ''tx1''),
         (1, SelectInputs ''tx1''), (1, SelectOutputs ''tx1'')]\<rparr>"

text \<open>
  A ledger whose successor lookups form a cycle: the output of \<^verbatim>\<open>t1\<close> to \<^verbatim>\<open>B\<close> is
  spent by \<^verbatim>\<open>t2\<close>, and the output of \<^verbatim>\<open>t2\<close> to \<^verbatim>\<open>A\<close> is spent by \<^verbatim>\<open>t1\<close>.
\<close>

definition cyclic_ledger :: env where
  "cyclic_ledger =
     \<lparr>TRANSACT =
        [\<lparr>tx_hash = ''t1'', tx_time = ''2024-02-01 00:00:00'',
          input_total = Some 5, output_total = Some 5\<rparr>,
         \<lparr>tx_hash = ''t2'', tx_time = ''2024-02-02 00:00:00'',
          input_total = Some 5, output_total = Some 5\<rparr>],
      INPUTS =
        [\<lparr>in_transaction_hash = ''t1'', in_recipient = Some ''A'', in_value = Some 5,
          spending_transaction_hash = Some ''t1''\<rparr>,
         \<lparr>in_transaction_hash = ''t2'', in_recipient = Some ''B'', in_value = Some 5,
          spending_transaction_hash = Some ''t2''\<rparr>],
      OUTPUTS =
        [\<lparr>out_transaction_hash = ''t1'', out_recipient = Some ''B'', out_value = Some 5\<rparr>,
         \<lparr>out_transaction_hash = ''t2'', out_recipient = Some ''A'', out_value = Some 5\<rparr>],
      sqlite_error = (\<lambda>q. False),
      tx_date_of = date_only\<rparr>"

text \<open>
  A ledger with a \<^verbatim>\<open>NULL\<close> recipient: \<^verbatim>\<open>u1\<close> and \<^verbatim>\<open>u2\<close> both spend from \<^verbatim>\<open>E\<close>, and
  the output record of \<^verbatim>\<open>u1\<close> has no recipient.
\<close>

definition null_ledger :: env where
  "null_ledger =
     \<lparr>TRANSACT =
        [\<lparr>tx_hash = ''u1'', tx_time = ''2024-03-01 00:00:00'',
          input_total = Some 1, output_total = Some 1\<rparr>,
         \<lparr>tx_hash = ''u2'', tx_time = ''2024-03-02 00:00:00'',
          input_total = Some 2, output_total = Some 2\<rparr>],
      INPUTS =
        [\<lparr>in_transaction_hash = ''u1'', in_recipient = Some ''E'', in_value = Some 1,
          spending_transaction_hash = None\<rparr>,
         \<lparr>in_transaction_hash = ''u2'', in_recipient = Some ''E'', in_value = Some 2,
          spending_transaction_hash = None\<rparr>],
      OUTPUTS =
        [\<lparr>out_transaction_hash = ''u1'', out_recipient = None, out_value = Some 1\<rparr>,
         \<lparr>out_transaction_hash = ''u2'', out_recipient = Some ''F'', out_value = Some 2\<rparr>],
      sqlite_error = (\<lambda>q. False),
      tx_date_of = date_only\<rparr>"

section \<open>Basic facts\<close>

lemma select_transact_hash: "select_transact db h = Some r \<Longrightarrow> tx_hash r = h"
  by (auto simp: select_transact_def find_Some_iff)

lemma emit_edges_no_outputs: "emit_edges h dt ins [] st = (st, None)"
  by (induction ins) auto

lemma update_wallet_balance_frame [simp]:
  "G (update_wallet_balance w a st) = G st"
  "visited_transactions (update_wallet_balance w a st) = visited_transactions st"
  "executed (update_wallet_balance w a st) = executed st"
  by (simp_all add: update_wallet_balance_def)

lemma execute_frame [simp]:
  "G (execute d q st) = G st"
  "wallet_balances (execute d q st) = wallet_balances st"
  "visited_transactions (execute d q st) = visited_transactions st"
  "executed (execute d q st) = executed st @ [(d, q)]"
  by (simp_all add: execute_def)

lemma emit_outputs_frame:
  "emit_outputs h dt inp outs st = (st', e) \<Longrightarrow>
   visited_transactions st' = visited_transactions st \<and> executed st' = executed st"
  by (induction outs arbitrary: st)
     (auto simp: Let_def split: prod.splits option.splits sum.splits)

lemma emit_edges_frame:
  "emit_edges h dt ins outs st = (st', e) \<Longrightarrow>
   visited_transactions st' = visited_transactions st \<and> executed st' = executed st"
proof (induction ins arbitrary: st)
  case Nil
  then show ?case by simp
next
  case (Cons inp ins)
  obtain st1 e1 where 1: "emit_outputs h dt inp outs st = (st1, e1)"
    by (cases "emit_outputs h dt inp outs st")
  show ?case
  proof (cases e1)
    case None
    with 1 Cons.prems have "emit_edges h dt ins outs st1 = (st', e)" by simp
    from Cons.IH [OF this] emit_outputs_frame [OF 1] show ?thesis by simp
  next
    case (Some x)
    with 1 Cons.prems have "st' = st1" by simp
    with emit_outputs_frame [OF 1] show ?thesis by simp
  qed
qed

lemma expand_one_cases:
  assumes "expand_one db h d st = (st5, f)"
  obtains
    (skip) qs where "f = Stop None" and "st5 = fetching h d qs st"
      and "qs \<in> {[SelectTransact h], [SelectTransact h, SelectInputs h],
                  [SelectTransact h, SelectInputs h, SelectOutputs h]}"
  | (emit) row dt e where "select_transact db h = Some row"
      and "tx_date_of db (tx_time row) = Some dt"
      and "emit_edges h dt (select_inputs db h) (select_outputs db h)
             (fetching h d [SelectTransact h, SelectInputs h, SelectOutputs h] st) = (st5, e)"
      and "f = (case e of None \<Rightarrow> Continue (select_outputs db h) | Some x \<Rightarrow> Stop (Some x))"
proof (cases "sqlite_error db (SelectTransact h)")
  case True
  with assms have "f = Stop None" "st5 = fetching h d [SelectTransact h] st"
    by (auto simp: expand_one_def Let_def fetching_def execute_def)
  then show ?thesis by (rule skip) simp
next
  case ok1: False
  show ?thesis
  proof (cases "select_transact db h")
    case None
    with ok1 assms have "f = Stop None" "st5 = fetching h d [SelectTransact h] st"
      by (auto simp: expand_one_def Let_def fetching_def execute_def)
    then show ?thesis by (rule skip) simp
  next
    case (Some row)
    then have hash: "tx_hash row = h" by (rule select_transact_hash)
    show ?thesis
    proof (cases "tx_date_of db (tx_time row)")
      case None
      with ok1 Some assms have "f = Stop None" "st5 = fetching h d [SelectTransact h] st"
        by (auto simp: expand_one_def Let_def fetching_def execute_def)
      then show ?thesis by (rule skip) simp
    next
      case dt: (Some dt)
      show ?thesis
      proof (cases "sqlite_error db (SelectInputs h)")
        case True
        with ok1 Some dt hash assms
        have "f = Stop None" "st5 = fetching h d [SelectTransact h, SelectInputs h] st"
          by (auto simp: expand_one_def Let_def fetching_def execute_def)
        then show ?thesis by (rule skip) simp
      next
        case ok2: False
        show ?thesis
        proof (cases "sqlite_error db (SelectOutputs h)")
          case True
          with ok1 ok2 Some dt hash assms
          have "f = Stop None"
            "st5 = fetching h d [SelectTransact h, SelectInputs h, SelectOutputs h] st"
            by (auto simp: expand_one_def Let_def fetching_def execute_def)
          then show ?thesis by (rule skip) simp
        next
          case ok3: False
          obtain s e where em: "emit_edges h dt (select_inputs db h) (select_outputs db h)
             (fetching h d [SelectTransact h, SelectInputs h, SelectOutputs h] st) = (s, e)"
            by (cases "emit_edges h dt (select_inputs db h) (select_outputs db h)
             (fetching h d [SelectTransact h, SelectInputs h, SelectOutputs h] st)")
          with ok1 ok2 ok3 Some dt hash assms
          have "st5 = s" "f = (case e of None \<Rightarrow> Continue (select_outputs db h) | Some x \<Rightarrow> Stop (Some x))"
            by (auto simp: expand_one_def Let_def fetching_def execute_def split: option.splits)
          with em show ?thesis using Some dt by (intro emit) auto
        qed
      qed
    qed
  qed
qed

lemma expand_one_frame:
  assumes "expand_one db h d st = (st5, f)"
  shows "visited_transactions st5 = insert h (visited_transactions st)"
    and "\<exists>qs. executed st5 = executed st @ map (Pair d) qs \<and>
           set qs \<subseteq> {SelectTransact h, SelectInputs h, SelectOutputs h}"
proof -
  have "visited_transactions st5 = insert h (visited_transactions st) \<and>
    (\<exists>qs. executed st5 = executed st @ map (Pair d) qs \<and>
           set qs \<subseteq> {SelectTransact h, SelectInputs h, SelectOutputs h})"
    using assms
  proof (cases rule: expand_one_cases)
    case (skip qs)
    then show ?thesis by (auto simp: fetching_def)
  next
    case (emit row dt e)
    from emit_edges_frame [OF emit(3)] show ?thesis
      by (simp add: fetching_def) (rule exI [of _ "[SelectTransact h, SelectInputs h, SelectOutputs h]"], simp)
  qed
  then show "visited_transactions st5 = insert h (visited_transactions st)"
    and "\<exists>qs. executed st5 = executed st @ map (Pair d) qs \<and>
           set qs \<subseteq> {SelectTransact h, SelectInputs h, SelectOutputs h}" by auto
qed

lemma process_each_rule:
  fixes Q :: "state \<Rightarrow> state \<Rightarrow> exn option \<Rightarrow> bool"
  assumes refl: "\<And>st. Q st st None"
    and trans: "\<And>a b c e. Q a b None \<Longrightarrow> Q b c e \<Longrightarrow> Q a c e"
    and one: "\<And>h st st' e. process_transaction n db h d m st = Some (st', e) \<Longrightarrow> Q st st' e"
  shows "process_each n db xs d m st = Some (st', e) \<Longrightarrow> Q st st' e"
proof (induction xs arbitrary: st)
  case Nil
  then show ?case by (simp add: refl)
next
  case (Cons x xs)
  from Cons.prems obtain st1 e1 where
    1: "process_transaction n db x d m st = Some (st1, e1)"
    by (auto split: option.splits)
  show ?case
  proof (cases e1)
    case None
    with 1 Cons.prems have "process_each n db xs d m st1 = Some (st', e)" by simp
    then have "Q st1 st' e" by (rule Cons.IH)
    with one [OF 1] None show ?thesis by (auto intro: trans)
  next
    case (Some x)
    with 1 Cons.prems one [OF 1] show ?thesis by simp
  qed
qed

lemma process_outputs_rule:
  fixes Q :: "state \<Rightarrow> state \<Rightarrow> exn option \<Rightarrow> bool"
  assumes refl: "\<And>st. Q st st None"
    and trans: "\<And>a b c e. Q a b None \<Longrightarrow> Q b c e \<Longrightarrow> Q a c e"
    and lookup: "\<And>a st. Q st (execute d (SelectSpending a) st) None"
    and each: "\<And>xs st st' e. process_each n db xs nd m st = Some (st', e) \<Longrightarrow> Q st st' e"
  shows "process_outputs n db outs d nd m st = Some (st', e) \<Longrightarrow> Q st st' e"
proof (induction outs arbitrary: st)
  case Nil
  then show ?case by (simp add: refl)
next
  case (Cons out outs)
  let ?st1 = "execute d (SelectSpending (fst out)) st"
  have q1: "Q st ?st1 None" by (rule lookup)
  show ?case
  proof (cases "sqlite_error db (SelectSpending (fst out))")
    case True
    with Cons.prems have "process_outputs n db outs d nd m ?st1 = Some (st', e)"
      by (simp add: Let_def)
    then have "Q ?st1 st' e" by (rule Cons.IH)
    with q1 show ?thesis by (rule trans)
  next
    case False
    with Cons.prems obtain st2 e2 where
      2: "process_each n db (select_spending db (fst out)) nd m ?st1 = Some (st2, e2)"
      by (auto simp: Let_def split: option.splits)
    from each [OF 2] have q2: "Q ?st1 st2 e2" .
    show ?thesis
    proof (cases e2)
      case None
      with False 2 Cons.prems have "process_outputs n db outs d nd m st2 = Some (st', e)"
        by (simp add: Let_def)
      then have "Q st2 st' e" by (rule Cons.IH)
      with q1 q2 None show ?thesis by (auto intro: trans)
    next
      case (Some x)
      with False 2 Cons.prems q1 q2 show ?thesis by (auto simp: Let_def intro: trans)
    qed
  qed
qed

lemma process_transaction_rule:
  fixes Q :: "state \<Rightarrow> state \<Rightarrow> exn option \<Rightarrow> bool"
  assumes refl: "\<And>st. Q st st None"
    and trans: "\<And>a b c e. Q a b None \<Longrightarrow> Q b c e \<Longrightarrow> Q a c e"
    and expand: "\<And>h d st st5 f. h \<notin> visited_transactions st \<Longrightarrow>
        expand_one db h d st = (st5, f) \<Longrightarrow>
        Q st st5 (case f of Stop e \<Rightarrow> e | Continue outs \<Rightarrow> None)"
    and lookup: "\<And>d a st. Q st (execute d (SelectSpending a) st) None"
  shows "process_transaction n db h d m st = Some (st', e) \<Longrightarrow> Q st st' e"
proof (induction n arbitrary: h d st st' e)
  case 0
  then show ?case by simp
next
  case (Suc n)
  show ?case
  proof (cases "h \<in> visited_transactions st")
    case True
    with Suc.prems show ?thesis by (simp add: refl)
  next
    case False
    obtain st5 f where ex: "expand_one db h d st = (st5, f)"
      by (cases "expand_one db h d st")
    note q = expand [OF False ex]
    show ?thesis
    proof (cases f)
      case (Stop x)
      with False ex Suc.prems q show ?thesis by simp
    next
      case (Continue outs)
      show ?thesis
      proof (cases "m = 0 \<or> d < m")
        case True
        with False ex Continue Suc.prems
        have po: "process_outputs n db outs d (d + 1) m st5 = Some (st', e)" by simp
        have each: "Q s s' x"
          if pe: "process_each n db xs (d + 1) m s = Some (s', x)" for xs s s' x
        proof (rule process_each_rule [where Q = Q, OF _ _ _ pe])
          show "Q a a None" for a by (rule refl)
          show "Q a b None \<Longrightarrow> Q b c y \<Longrightarrow> Q a c y" for a b c y by (rule trans)
          show "process_transaction n db k (d + 1) m a = Some (b, y) \<Longrightarrow> Q a b y" for k a b y
            by (rule Suc.IH)
        qed
        have "Q st5 st' e"
        proof (rule process_outputs_rule [where Q = Q, OF _ _ _ _ po])
          show "Q a a None" for a by (rule refl)
          show "Q a b None \<Longrightarrow> Q b c y \<Longrightarrow> Q a c y" for a b c y by (rule trans)
          show "Q a (execute d (SelectSpending w) a) None" for w a by (rule lookup)
          show "process_each n db xs (d + 1) m a = Some (b, y) \<Longrightarrow> Q a b y" for xs a b y
            by (rule each)
        qed
        with q Continue show ?thesis by (auto intro: trans)
      next
        case no: False
        with False ex Continue Suc.prems q show ?thesis by simp
      qed
    qed
  qed
qed

section \<open>Running the model\<close>

lemmas run_defs =
  expand_one_def execute_def select_transact_def select_inputs_def select_outputs_def
  select_spending_def select_wallet_def date_only_def Let_def add_edge_def add_node_def
  update_wallet_balance_def balance_of_def py_float_def init_def finish_def build_graph_def

lemma budget_exhausted:
  assumes "h \<notin> visited_transactions st" and "\<not> (m = 0 \<or> d < m)"
  shows "process_transaction (Suc n) db h d m st =
           Some (fst (expand_one db h d st),
                 case snd (expand_one db h d st) of Stop e \<Rightarrow> e | Continue outs \<Rightarrow> None)"
  using assms by (auto split: prod.splits fetched.splits)

lemma scenario_tx1:
  "process_transaction (Suc 0) ledger ''tx1'' 1 1 init =
     Some (\<lparr>G = \<lparr>nodes =
                  [(Some ''A'', \<lparr>node_balance = None, node_label = None\<rparr>),
                   (Some ''B'', \<lparr>node_balance = None, node_label = None\<rparr>),
                   (Some ''C'', \<lparr>node_balance = None, node_label = None\<rparr>)],
                edges =
                  [((Some ''A'', Some ''B''),
                    \<lparr>edge_tx_id = ''tx1'', edge_value = Some 3, edge_date = ''2024-01-01''\<rparr>),
                   ((Some ''A'', Some ''C''),
                    \<lparr>edge_tx_id = ''tx1'', edge_value = Some 2, edge_date = ''2024-01-01''\<rparr>)]\<rparr>,
             wallet_balances = [(Some ''A'', - 10), (Some ''B'', 3), (Some ''C'', 2)],
             visited_transactions = {''tx1''},
             executed =
               [(1, SelectTransact ''tx1''), (1, SelectInputs ''tx1''),
                (1, SelectOutputs ''tx1'')]\<rparr>, None)"
  by (simp add: run_defs ledger_def)

lemma scenario_unbounded:
  "process_transaction (Suc (Suc (Suc 0))) ledger ''tx1'' 1 0 init =
     Some (\<lparr>G = \<lparr>nodes =
                  [(Some ''A'', \<lparr>node_balance = None, node_label = None\<rparr>),
                   (Some ''B'', \<lparr>node_balance = None, node_label = None\<rparr>),
                   (Some ''C'', \<lparr>node_balance = None, node_label = None\<rparr>),
                   (Some ''D'', \<lparr>node_balance = None, node_label = None\<rparr>)],
                edges =
                  [((Some ''A'', Some ''B''),
                    \<lparr>edge_tx_id = ''tx1'', edge_value = Some 3, edge_date = ''2024-01-01''\<rparr>),
                   ((Some ''A'', Some ''C''),
                    \<lparr>edge_tx_id = ''tx1'', edge_value = Some 2, edge_date = ''2024-01-01''\<rparr>),
                   ((Some ''B'', Some ''D''),
                    \<lparr>edge_tx_id = ''tx2'', edge_value = Some 3, edge_date = ''2024-01-02''\<rparr>)]\<rparr>,
             wallet_balances =
               [(Some ''A'', - 10), (Some ''B'', 0), (Some ''C'', 2), (Some ''D'', 3)],
             visited_transactions = {''tx2'', ''tx1''},
             executed =
               [(1, SelectTransact ''tx1''), (1, SelectInputs ''tx1''),
                (1, SelectOutputs ''tx1''), (1, SelectSpending (Some ''B'')),
                (2, SelectTransact ''tx2''), (2, SelectInputs ''tx2''),
                (2, SelectOutputs ''tx2''), (2, SelectSpending (Some ''D'')),
                (1, SelectSpending (Some ''C''))]\<rparr>, None)"
  by (simp add: run_defs ledger_def)

lemma cyclic_run:
  "process_transaction (Suc (Suc (Suc (Suc 0)))) cyclic_ledger ''t1'' 1 0 init =
   Some (\<lparr>G = \<lparr>nodes =
                  [(Some ''A'', \<lparr>node_balance = None, node_label = None\<rparr>),
                   (Some ''B'', \<lparr>node_balance = None, node_label = None\<rparr>)],
                edges =
                  [((Some ''A'', Some ''B''),
                    \<lparr>edge_tx_id = ''t1'', edge_value = Some 5, edge_date = ''2024-02-01''\<rparr>),
                   ((Some ''B'', Some ''A''),
                    \<lparr>edge_tx_id = ''t2'', edge_value = Some 5, edge_date = ''2024-02-02''\<rparr>)]\<rparr>,
           wallet_balances = [(Some ''A'', 0), (Some ''B'', 0)],
           visited_transactions = {''t2'', ''t1''},
           executed =
             [(1, SelectTransact ''t1''), (1, SelectInputs ''t1''),
              (1, SelectOutputs ''t1''), (1, SelectSpending (Some ''B'')),
              (2, SelectTransact ''t2''), (2, SelectInputs ''t2''),
              (2, SelectOutputs ''t2''), (2, SelectSpending (Some ''A''))]\<rparr>, None)"
  by (simp add: run_defs cyclic_ledger_def)

lemma successor_tx1_tx2: "successor ledger ''tx1'' ''tx2''"
  by (simp add: successor_def run_defs ledger_def)

lemma successor_cycle: "successor cyclic_ledger ''t1'' ''t2'' \<and> successor cyclic_ledger ''t2'' ''t1''"
  by (simp add: successor_def run_defs cyclic_ledger_def)

lemma once_init: "once init"
  by (simp add: once_def expansions_def init_def)

section \<open>The visited set, termination and the depth bound\<close>

lemma expand_one_no_successor:
  assumes "expand_one db h d st = (st5, Stop None)"
  shows "\<not> successor db h y"
  using assms
  by (auto simp: expand_one_def Let_def successor_def
           dest!: select_transact_hash split: option.splits prod.splits if_splits)

lemma expand_one_outputs:
  assumes "expand_one db h d st = (st5, Continue outs)"
  shows "outs = select_outputs db h"
  using assms
  by (auto simp: expand_one_def Let_def
           dest!: select_transact_hash split: option.splits prod.splits if_splits)

lemma visited_mono:
  assumes "process_transaction n db h d m st = Some (st', e)"
  shows "visited_transactions st \<subseteq> visited_transactions st'"
  using assms
  by (rule process_transaction_rule
        [where Q = "\<lambda>a b e. visited_transactions a \<subseteq> visited_transactions b", rotated 4])
     (auto dest: expand_one_frame(1))

lemma visited_mono_each:
  assumes "process_each n db xs d m st = Some (st', e)"
  shows "visited_transactions st \<subseteq> visited_transactions st'"
  using assms
  by (rule process_each_rule
        [where Q = "\<lambda>a b e. visited_transactions a \<subseteq> visited_transactions b", rotated 3])
     (auto dest: visited_mono)

lemma visited_mono_outputs:
  assumes "process_outputs n db outs d nd m st = Some (st', e)"
  shows "visited_transactions st \<subseteq> visited_transactions st'"
  using assms
  by (rule process_outputs_rule
        [where Q = "\<lambda>a b e. visited_transactions a \<subseteq> visited_transactions b", rotated 4])
     (auto dest: visited_mono_each)

lemma marks_visited:
  assumes "process_transaction n db h d m st = Some (st', e)"
  shows "h \<in> visited_transactions st'"
proof (cases n)
  case 0
  with assms show ?thesis by simp
next
  case (Suc k)
  show ?thesis
  proof (cases "h \<in> visited_transactions st")
    case True
    with visited_mono [OF assms] show ?thesis by auto
  next
    case False
    obtain st5 f where ex: "expand_one db h d st = (st5, f)"
      by (cases "expand_one db h d st")
    from expand_one_frame(1) [OF ex] have 5: "h \<in> visited_transactions st5" by simp
    show ?thesis
    proof (cases f)
      case (Stop x)
      with assms Suc False ex 5 show ?thesis by simp
    next
      case (Continue outs)
      show ?thesis
      proof (cases "m = 0 \<or> d < m")
        case True
        with assms Suc False ex Continue
        have "process_outputs k db outs d (d + 1) m st5 = Some (st', e)" by simp
        from visited_mono_outputs [OF this] 5 show ?thesis by auto
      next
        case no: False
        with assms Suc False ex Continue 5 show ?thesis by simp
      qed
    qed
  qed
qed

lemma select_spending_spenders: "set (select_spending db a) \<subseteq> spenders db"
  by (auto simp: select_spending_def spenders_def split: option.splits)

lemma finite_spenders: "finite (spenders db)"
proof -
  have "spenders db \<subseteq> (\<lambda>r. the (spending_transaction_hash r)) ` set (INPUTS db)"
    by (force simp: spenders_def)
  then show ?thesis by (rule finite_subset) simp
qed

lemma card_spenders: "card (spenders db) \<le> length (INPUTS db)"
proof -
  have "spenders db \<subseteq> (\<lambda>r. the (spending_transaction_hash r)) ` set (INPUTS db)"
    by (force simp: spenders_def)
  then have "card (spenders db) \<le> card ((\<lambda>r. the (spending_transaction_hash r)) ` set (INPUTS db))"
    by (rule card_mono [rotated]) simp
  also have "\<dots> \<le> card (set (INPUTS db))" by (rule card_image_le) simp
  also have "\<dots> \<le> length (INPUTS db)" by (rule card_length)
  finally show ?thesis .
qed

lemma each_returns:
  assumes fin: "finite W"
    and one: "\<And>h st. h \<in> W \<Longrightarrow> card (W - visited_transactions st) < n \<Longrightarrow>
               \<exists>r. process_transaction n db h d m st = Some r"
  shows "set xs \<subseteq> W \<Longrightarrow> card (W - visited_transactions st) < n \<Longrightarrow>
         \<exists>r. process_each n db xs d m st = Some r"
proof (induction xs arbitrary: st)
  case Nil
  show ?case by simp
next
  case (Cons x xs)
  from Cons.prems one [of x st] obtain st1 e1 where
    1: "process_transaction n db x d m st = Some (st1, e1)" by auto
  show ?case
  proof (cases e1)
    case None
    from visited_mono [OF 1]
    have "W - visited_transactions st1 \<subseteq> W - visited_transactions st" by auto
    with fin have "card (W - visited_transactions st1) \<le> card (W - visited_transactions st)"
      by (intro card_mono) auto
    with Cons.prems have "card (W - visited_transactions st1) < n" by simp
    with Cons.IH [of st1] Cons.prems obtain r where "process_each n db xs d m st1 = Some r"
      by auto
    with 1 None show ?thesis by simp
  next
    case (Some a)
    with 1 show ?thesis by simp
  qed
qed

lemma outputs_return:
  assumes fin: "finite W" and sub: "spenders db \<subseteq> W"
    and each: "\<And>xs st. set xs \<subseteq> W \<Longrightarrow> card (W - visited_transactions st) < n \<Longrightarrow>
               \<exists>r. process_each n db xs nd m st = Some r"
  shows "card (W - visited_transactions st) < n \<Longrightarrow>
         \<exists>r. process_outputs n db outs d nd m st = Some r"
proof (induction outs arbitrary: st)
  case Nil
  show ?case by simp
next
  case (Cons out outs)
  let ?st1 = "execute d (SelectSpending (fst out)) st"
  from Cons.prems have c1: "card (W - visited_transactions ?st1) < n" by simp
  show ?case
  proof (cases "sqlite_error db (SelectSpending (fst out))")
    case True
    with Cons.IH [OF c1] show ?thesis by (simp add: Let_def)
  next
    case False
    from select_spending_spenders sub have "set (select_spending db (fst out)) \<subseteq> W" by blast
    from each [OF this c1] obtain st2 e2 where
      2: "process_each n db (select_spending db (fst out)) nd m ?st1 = Some (st2, e2)" by auto
    show ?thesis
    proof (cases e2)
      case None
      from visited_mono_each [OF 2]
      have "W - visited_transactions st2 \<subseteq> W - visited_transactions ?st1" by auto
      with fin have "card (W - visited_transactions st2) \<le> card (W - visited_transactions ?st1)"
        by (intro card_mono) auto
      with c1 have "card (W - visited_transactions st2) < n" by simp
      from Cons.IH [OF this] False 2 None show ?thesis by (simp add: Let_def)
    next
      case (Some a)
      with False 2 show ?thesis by (simp add: Let_def)
    qed
  qed
qed

lemma process_transaction_returns:
  assumes fin: "finite W" and sub: "spenders db \<subseteq> W"
  shows "h \<in> W \<Longrightarrow> card (W - visited_transactions st) < n \<Longrightarrow>
         \<exists>r. process_transaction n db h d m st = Some r"
proof (induction n arbitrary: h d st)
  case 0
  then show ?case by simp
next
  case (Suc n)
  show ?case
  proof (cases "h \<in> visited_transactions st")
    case True
    then show ?thesis by simp
  next
    case False
    obtain st5 f where ex: "expand_one db h d st = (st5, f)"
      by (cases "expand_one db h d st")
    from expand_one_frame(1) [OF ex]
    have 5: "visited_transactions st5 = insert h (visited_transactions st)" .
    show ?thesis
    proof (cases f)
      case (Stop x)
      with False ex show ?thesis by simp
    next
      case (Continue outs)
      show ?thesis
      proof (cases "m = 0 \<or> d < m")
        case True
        from False Suc.prems(1) have "h \<in> W - visited_transactions st" by simp
        with fin have "card (W - visited_transactions st - {h}) < card (W - visited_transactions st)"
          by (intro card_Diff1_less) auto
        moreover have "W - visited_transactions st5 = W - visited_transactions st - {h}"
          using 5 by auto
        ultimately have c5: "card (W - visited_transactions st5) < n"
          using Suc.prems(2) by simp
        have "\<exists>r. process_outputs n db outs d (d + 1) m st5 = Some r"
        proof (rule outputs_return [OF fin sub _ c5])
          show "\<exists>r. process_each n db xs (d + 1) m s = Some r"
            if "set xs \<subseteq> W" "card (W - visited_transactions s) < n" for xs s
          proof (rule each_returns [OF fin _ that])
            show "\<exists>r. process_transaction n db k (d + 1) m s = Some r"
              if "k \<in> W" "card (W - visited_transactions s) < n" for k s
              using that by (rule Suc.IH)
          qed
        qed
        with False ex Continue True show ?thesis by simp
      next
        case no: False
        with False ex Continue show ?thesis by simp
      qed
    qed
  qed
qed

lemma enough_fuel:
  assumes "Suc (length (INPUTS db)) < n"
  shows "\<exists>r. process_transaction n db h d m st = Some r"
proof -
  let ?W = "insert h (spenders db)"
  have fin: "finite ?W" by (simp add: finite_spenders)
  have "card (?W - visited_transactions st) \<le> card ?W"
    using fin by (intro card_mono) auto
  also have "\<dots> \<le> Suc (card (spenders db))" by (simp add: card_insert_if finite_spenders)
  also have "\<dots> \<le> Suc (length (INPUTS db))" using card_spenders [of db] by simp
  finally have "card (?W - visited_transactions st) < n" using assms by simp
  with fin show ?thesis by (intro process_transaction_returns [where W = ?W]) auto
qed

lemma each_more_fuel:
  assumes one: "\<And>h st r. process_transaction n db h d m st = Some r \<Longrightarrow>
                 process_transaction n' db h d m st = Some r"
  shows "process_each n db xs d m st = Some r \<Longrightarrow> process_each n' db xs d m st = Some r"
proof (induction xs arbitrary: st)
  case Nil
  then show ?case by simp
next
  case (Cons x xs)
  from Cons.prems obtain st1 e1 where
    1: "process_transaction n db x d m st = Some (st1, e1)"
    by (auto split: option.splits)
  note 2 = one [OF 1]
  show ?case
  proof (cases e1)
    case None
    with 1 Cons.prems have "process_each n db xs d m st1 = Some r" by simp
    then have "process_each n' db xs d m st1 = Some r" by (rule Cons.IH)
    with 2 None show ?thesis by simp
  next
    case (Some a)
    with 1 Cons.prems have "r = (st1, Some a)" by simp
    with 2 Some show ?thesis by simp
  qed
qed

lemma outputs_more_fuel:
  assumes each: "\<And>xs st r. process_each n db xs nd m st = Some r \<Longrightarrow>
                  process_each n' db xs nd m st = Some r"
  shows "process_outputs n db outs d nd m st = Some r \<Longrightarrow>
         process_outputs n' db outs d nd m st = Some r"
proof (induction outs arbitrary: st)
  case Nil
  then show ?case by simp
next
  case (Cons out outs)
  let ?st1 = "execute d (SelectSpending (fst out)) st"
  show ?case
  proof (cases "sqlite_error db (SelectSpending (fst out))")
    case True
    with Cons.prems have "process_outputs n db outs d nd m ?st1 = Some r"
      by (simp add: Let_def)
    then have "process_outputs n' db outs d nd m ?st1 = Some r" by (rule Cons.IH)
    with True show ?thesis by (simp add: Let_def)
  next
    case False
    with Cons.prems obtain st2 e2 where
      2: "process_each n db (select_spending db (fst out)) nd m ?st1 = Some (st2, e2)"
      by (auto simp: Let_def split: option.splits)
    note 3 = each [OF 2]
    show ?thesis
    proof (cases e2)
      case None
      with False 2 Cons.prems have "process_outputs n db outs d nd m st2 = Some r"
        by (simp add: Let_def)
      then have "process_outputs n' db outs d nd m st2 = Some r" by (rule Cons.IH)
      with False 3 None show ?thesis by (simp add: Let_def)
    next
      case (Some a)
      with False 2 Cons.prems have "r = (st2, Some a)" by (simp add: Let_def)
      with False 3 Some show ?thesis by (simp add: Let_def)
    qed
  qed
qed

lemma one_more_fuel:
  "process_transaction n db h d m st = Some r \<Longrightarrow>
   process_transaction (Suc n) db h d m st = Some r"
proof (induction n arbitrary: h d st r)
  case 0
  then show ?case by simp
next
  case (Suc n)
  show ?case
  proof (cases "h \<in> visited_transactions st")
    case True
    with Suc.prems show ?thesis by simp
  next
    case False
    obtain st5 f where ex: "expand_one db h d st = (st5, f)"
      by (cases "expand_one db h d st")
    show ?thesis
    proof (cases f)
      case (Stop x)
      with False ex Suc.prems show ?thesis by simp
    next
      case (Continue outs)
      show ?thesis
      proof (cases "m = 0 \<or> d < m")
        case True
        with False ex Continue Suc.prems
        have "process_outputs n db outs d (d + 1) m st5 = Some r" by simp
        then have "process_outputs (Suc n) db outs d (d + 1) m st5 = Some r"
        proof (rule outputs_more_fuel [rotated])
          show "process_each n db xs (d + 1) m s = Some y \<Longrightarrow>
                process_each (Suc n) db xs (d + 1) m s = Some y" for xs s y
            by (erule each_more_fuel [rotated]) (rule Suc.IH)
        qed
        with False ex Continue True show ?thesis by simp
      next
        case no: False
        with False ex Continue Suc.prems show ?thesis by simp
      qed
    qed
  qed
qed

lemma more_fuel:
  assumes "process_transaction n db h d m st = Some r" and "n \<le> n'"
  shows "process_transaction n' db h d m st = Some r"
  using assms(2) assms(1)
proof (induction rule: dec_induct)
  case base
  then show ?case .
next
  case (step k)
  from step.IH [OF step.prems] show ?case by (rule one_more_fuel)
qed

lemma expand_one_expansions:
  assumes "expand_one db h d st = (st5, f)"
  shows "expansions st5 = expansions st @ [h]"
  using assms
proof (cases rule: expand_one_cases)
  case (skip qs)
  then show ?thesis by (auto simp: fetching_def expansions_def)
next
  case (emit row dt e)
  from emit_edges_frame [OF emit(3)] show ?thesis
    by (simp add: expansions_def fetching_def)
qed


lemma once_expand_one:
  assumes "h \<notin> visited_transactions st" and "expand_one db h d st = (st5, f)" and "once st"
  shows "once st5"
  using assms expand_one_expansions [OF assms(2)] expand_one_frame(1) [OF assms(2)]
  by (auto simp: once_def)

lemma once_execute [simp]: "once (execute d (SelectSpending a) st) = once st"
  by (simp add: once_def execute_def expansions_def)

lemma once_preserved:
  assumes "process_transaction n db h d m st = Some (st', e)"
  shows "once st \<longrightarrow> once st'"
  using assms
  by (rule process_transaction_rule [where Q = "\<lambda>a b e. once a \<longrightarrow> once b", rotated 4])
     (auto dest: once_expand_one)

lemma in_depth_refl: "in_depth d m st st"
  by (simp add: in_depth_def)

lemma in_depth_trans: "in_depth d m a b \<Longrightarrow> in_depth d m b c \<Longrightarrow> in_depth d m a c"
  by (auto simp: in_depth_def)

lemma in_depth_deeper: "in_depth (d + 1) m a b \<Longrightarrow> in_depth d m a b"
  by (auto simp: in_depth_def)

lemma in_depth_expand_one:
  assumes "expand_one db h d st = (st5, f)" and "d \<le> m"
  shows "in_depth d m st st5"
  using expand_one_frame(2) [OF assms(1)] assms(2) by (auto simp: in_depth_def)

lemma depth_bounded:
  assumes "0 < m"
  shows "d \<le> m \<Longrightarrow> process_transaction n db h d m st = Some (st', e) \<Longrightarrow> in_depth d m st st'"
proof (induction n arbitrary: h d st st' e)
  case 0
  then show ?case by simp
next
  case (Suc n)
  show ?case
  proof (cases "h \<in> visited_transactions st")
    case True
    with Suc.prems show ?thesis by (simp add: in_depth_refl)
  next
    case False
    obtain st5 f where ex: "expand_one db h d st = (st5, f)"
      by (cases "expand_one db h d st")
    note w5 = in_depth_expand_one [OF ex Suc.prems(1)]
    show ?thesis
    proof (cases f)
      case (Stop x)
      with False ex Suc.prems w5 show ?thesis by simp
    next
      case (Continue outs)
      show ?thesis
      proof (cases "m = 0 \<or> d < m")
        case True
        with assms have dm: "d + 1 \<le> m" by simp
        from True False ex Continue Suc.prems
        have po: "process_outputs n db outs d (d + 1) m st5 = Some (st', e)" by simp
        have each: "in_depth d m s s'"
          if pe: "process_each n db xs (d + 1) m s = Some (s', x)" for xs s s' x
        proof (rule process_each_rule [where Q = "\<lambda>a b e. in_depth d m a b", OF _ _ _ pe])
          show "in_depth d m a a" for a by (rule in_depth_refl)
          show "in_depth d m a b \<Longrightarrow> in_depth d m b c \<Longrightarrow> in_depth d m a c" for a b c
            by (rule in_depth_trans)
          show "process_transaction n db k (d + 1) m a = Some (b, y) \<Longrightarrow> in_depth d m a b"
            for k a b y
            by (rule in_depth_deeper) (rule Suc.IH [OF dm])
        qed
        have "in_depth d m st5 st'"
        proof (rule process_outputs_rule [where Q = "\<lambda>a b e. in_depth d m a b", OF _ _ _ _ po])
          show "in_depth d m a a" for a by (rule in_depth_refl)
          show "in_depth d m a b \<Longrightarrow> in_depth d m b c \<Longrightarrow> in_depth d m a c" for a b c
            by (rule in_depth_trans)
          show "in_depth d m a (execute d (SelectSpending w) a)" for w a
            using Suc.prems(1) by (simp add: in_depth_def)
          show "process_each n db xs (d + 1) m a = Some (b, y) \<Longrightarrow> in_depth d m a b" for xs a b y
            by (rule each)
        qed
        with w5 show ?thesis by (rule in_depth_trans)
      next
        case no: False
        with False ex Continue Suc.prems w5 show ?thesis by simp
      qed
    qed
  qed
qed

lemma closed_under_refl: "closed_under db st st"
  by (simp add: closed_under_def)

lemma closed_under_trans:
  "closed_under db a b \<Longrightarrow> closed_under db b c \<Longrightarrow> closed_under db a c"
  unfolding closed_under_def by blast

lemma each_marks:
  "process_each n db xs d m st = Some (st', None) \<Longrightarrow> set xs \<subseteq> visited_transactions st'"
proof (induction xs arbitrary: st)
  case Nil
  then show ?case by simp
next
  case (Cons x xs)
  from Cons.prems obtain st1 e1 where
    1: "process_transaction n db x d m st = Some (st1, e1)"
    by (auto split: option.splits)
  with Cons.prems have e1: "e1 = None" and 2: "process_each n db xs d m st1 = Some (st', None)"
    by (auto split: option.splits)
  from marks_visited [OF 1] visited_mono_each [OF 2] Cons.IH [OF 2] show ?case by auto
qed

lemma outputs_mark:
  "process_outputs n db outs d nd m st = Some (st', None) \<Longrightarrow>
   \<forall>out \<in> set outs. \<not> sqlite_error db (SelectSpending (fst out)) \<longrightarrow>
      set (select_spending db (fst out)) \<subseteq> visited_transactions st'"
proof (induction outs arbitrary: st)
  case Nil
  then show ?case by simp
next
  case (Cons out outs)
  let ?st1 = "execute d (SelectSpending (fst out)) st"
  show ?case
  proof (cases "sqlite_error db (SelectSpending (fst out))")
    case True
    with Cons.prems have "process_outputs n db outs d nd m ?st1 = Some (st', None)"
      by (simp add: Let_def)
    from Cons.IH [OF this] True show ?thesis by simp
  next
    case False
    with Cons.prems obtain st2 e2 where
      2: "process_each n db (select_spending db (fst out)) nd m ?st1 = Some (st2, e2)"
      by (auto simp: Let_def split: option.splits)
    with False Cons.prems have e2: "e2 = None"
      and 3: "process_outputs n db outs d nd m st2 = Some (st', None)"
      by (auto simp: Let_def split: option.splits)
    from each_marks [OF 2 [unfolded e2]] visited_mono_outputs [OF 3] Cons.IH [OF 3]
    show ?thesis by auto
  qed
qed

lemma unbounded_closed:
  "process_transaction n db h d 0 st = Some (st', None) \<Longrightarrow> closed_under db st st'"
proof (induction n arbitrary: h d st st')
  case 0
  then show ?case by simp
next
  case (Suc n)
  show ?case
  proof (cases "h \<in> visited_transactions st")
    case True
    with Suc.prems show ?thesis by (simp add: closed_under_refl)
  next
    case False
    obtain st5 f where ex: "expand_one db h d st = (st5, f)"
      by (cases "expand_one db h d st")
    note v5 = expand_one_frame(1) [OF ex]
    show ?thesis
    proof (cases f)
      case (Stop x)
      with False ex Suc.prems have "x = None" "st' = st5" by auto
      with ex Stop have "\<not> successor db h y" for y
        by (auto dest: expand_one_no_successor)
      with v5 \<open>st' = st5\<close> show ?thesis by (auto simp: closed_under_def)
    next
      case (Continue outs)
      with False ex Suc.prems
      have po: "process_outputs n db outs d (d + 1) 0 st5 = Some (st', None)" by simp
      have outs: "outs = select_outputs db h"
        using ex Continue by (auto dest: expand_one_outputs)
      have each: "x = None \<longrightarrow> closed_under db s s'"
        if pe: "process_each n db xs (d + 1) 0 s = Some (s', x)" for xs s s' x
      proof (rule process_each_rule
          [where Q = "\<lambda>a b e. e = None \<longrightarrow> closed_under db a b", OF _ _ _ pe])
        show "(None :: exn option) = None \<longrightarrow> closed_under db a a" for a by (simp add: closed_under_refl)
        show "(None :: exn option) = None \<longrightarrow> closed_under db a b \<Longrightarrow> y = None \<longrightarrow> closed_under db b c \<Longrightarrow>
              y = None \<longrightarrow> closed_under db a c" for a b c y
          by (auto intro: closed_under_trans)
        show "process_transaction n db k (d + 1) 0 a = Some (b, y) \<Longrightarrow>
              y = None \<longrightarrow> closed_under db a b" for k a b y
          by (auto intro: Suc.IH)
      qed
      have "(None :: exn option) = None \<longrightarrow> closed_under db st5 st'"
      proof (rule process_outputs_rule
          [where Q = "\<lambda>a b e. e = None \<longrightarrow> closed_under db a b", OF _ _ _ _ po])
        show "(None :: exn option) = None \<longrightarrow> closed_under db a a" for a by (simp add: closed_under_refl)
        show "(None :: exn option) = None \<longrightarrow> closed_under db a b \<Longrightarrow> y = None \<longrightarrow> closed_under db b c \<Longrightarrow>
              y = None \<longrightarrow> closed_under db a c" for a b c y
          by (auto intro: closed_under_trans)
        show "(None :: exn option) = None \<longrightarrow> closed_under db a (execute d (SelectSpending w) a)" for w a
          by (simp add: closed_under_def)
        show "process_each n db xs (d + 1) 0 a = Some (b, y) \<Longrightarrow>
              y = None \<longrightarrow> closed_under db a b" for xs a b y
          by (rule each)
      qed
      then have c5: "closed_under db st5 st'" by simp
      have hs: "y \<in> visited_transactions st'" if "successor db h y" for y
      proof -
        from that obtain out where "out \<in> set (select_outputs db h)"
          and "\<not> sqlite_error db (SelectSpending (fst out))"
          and y: "y \<in> set (select_spending db (fst out))"
          unfolding successor_def by blast
        with outputs_mark [OF po] outs
        have "set (select_spending db (fst out)) \<subseteq> visited_transactions st'" by blast
        with y show ?thesis by blast
      qed
      from c5 have sub5: "visited_transactions st5 \<subseteq> visited_transactions st'"
        and cl5: "\<And>x y. x \<in> visited_transactions st' \<Longrightarrow> x \<notin> visited_transactions st5 \<Longrightarrow>
                   successor db x y \<Longrightarrow> y \<in> visited_transactions st'"
        unfolding closed_under_def by blast+
      show ?thesis
        unfolding closed_under_def
      proof (intro conjI ballI allI impI)
        show "visited_transactions st \<subseteq> visited_transactions st'"
          using sub5 v5 by blast
      next
        fix x y
        assume x: "x \<in> visited_transactions st' - visited_transactions st"
          and s: "successor db x y"
        show "y \<in> visited_transactions st'"
        proof (cases "x = h")
          case True
          with s show ?thesis by (simp add: hs)
        next
          case False
          with x v5 have "x \<in> visited_transactions st'" "x \<notin> visited_transactions st5"
            by auto
          then show ?thesis using s by (rule cl5)
        qed
      qed
    qed
  qed
qed

lemma reachable_visited:
  assumes "process_transaction n db h d 0 st = Some (st', None)"
    and "visited_transactions st = {}" and "(successor db)\<^sup>*\<^sup>* h y"
  shows "y \<in> visited_transactions st'"
  using assms(3)
proof (induction rule: rtranclp_induct)
  case base
  from assms(1) show ?case by (rule marks_visited)
next
  case (step y z)
  with unbounded_closed [OF assms(1)] assms(2) show ?case
    by (auto simp: closed_under_def)
qed

section \<open>Edge emission and what every step preserves\<close>

lemma add_node_keys: "fst ` set (nodes (add_node u g)) = insert u (fst ` set (nodes g))"
  by (auto simp: add_node_def)

lemma add_node_edges [simp]: "edges (add_node u g) = edges g"
  by (simp add: add_node_def)

lemma add_edge_unfold:
  "add_edge u v a g =
     (if u = None \<and> None \<notin> fst ` set (nodes g) then (g, Some ValueError)
      else if v = None \<and> None \<notin> insert u (fst ` set (nodes g))
        then (add_node u g, Some ValueError)
      else (add_node v (add_node u g)\<lparr>edges := AList.update (u, v) a (edges g)\<rparr>, None))"
  by (cases u; cases v) (simp_all add: add_edge_def Let_def add_node_keys)

lemma add_edge_ok:
  assumes "add_edge u v a g = (g', None)"
  shows "edges g' = AList.update (u, v) a (edges g)"
    and "fst ` set (nodes g') = insert u (insert v (fst ` set (nodes g)))"
    and "None \<notin> fst ` set (nodes g) \<Longrightarrow> u \<noteq> None \<and> v \<noteq> None"
proof -
  let ?K = "fst ` set (nodes g)"
  from assms have u: "\<not> (u = None \<and> None \<notin> ?K)"
    by (simp add: add_edge_unfold split: if_splits)
  from assms have v: "\<not> (v = None \<and> None \<notin> insert u ?K)"
    by (simp add: add_edge_unfold split: if_splits del: insert_iff)
  from assms u v have g': "g' = add_node v (add_node u g)\<lparr>edges := AList.update (u, v) a (edges g)\<rparr>"
    by (simp add: add_edge_unfold del: insert_iff)
  show "edges g' = AList.update (u, v) a (edges g)" by (simp add: g')
  show "fst ` set (nodes g') = insert u (insert v ?K)"
    by (simp add: g' add_node_keys insert_commute)
  show "u \<noteq> None \<and> v \<noteq> None" if "None \<notin> ?K"
    using u v that by auto
qed

lemma add_edge_raise:
  assumes "add_edge u v a g = (g', Some e)"
  shows "edges g' = edges g"
    and "fst ` set (nodes g) \<subseteq> fst ` set (nodes g')"
    and "None \<notin> fst ` set (nodes g) \<Longrightarrow> None \<notin> fst ` set (nodes g')"
proof -
  let ?K = "fst ` set (nodes g)"
  from assms have "g' = g \<or> (g' = add_node u g \<and> u \<noteq> None)"
    by (auto simp: add_edge_unfold split: if_splits simp del: insert_iff)
  then have "edges g' = edges g \<and> ?K \<subseteq> fst ` set (nodes g') \<and>
      (None \<notin> ?K \<longrightarrow> None \<notin> fst ` set (nodes g'))"
  proof
    assume "g' = g"
    then show ?thesis by simp
  next
    assume "g' = add_node u g \<and> u \<noteq> None"
    then show ?thesis by (simp add: add_node_keys subset_insertI) blast
  qed
  then show "edges g' = edges g" and "?K \<subseteq> fst ` set (nodes g')"
    and "None \<notin> ?K \<Longrightarrow> None \<notin> fst ` set (nodes g')" by simp_all
qed

lemma add_edge_present:
  "add_edge (Some s) (Some r) a g =
     (add_node (Some r) (add_node (Some s) g)
        \<lparr>edges := AList.update (Some s, Some r) a (edges g)\<rparr>, None)"
  by (simp add: add_edge_def Let_def)

lemma emit_outputs_rule:
  fixes Q :: "state \<Rightarrow> state \<Rightarrow> bool"
  assumes refl: "\<And>st. Q st st"
    and trans: "\<And>a b c. Q a b \<Longrightarrow> Q b c \<Longrightarrow> Q a c"
    and edge: "\<And>st out g e. out \<in> S \<Longrightarrow>
        add_edge (fst inp) (fst out)
          \<lparr>edge_tx_id = h, edge_value = snd out, edge_date = dt\<rparr> (G st) = (g, e) \<Longrightarrow>
        Q st (st\<lparr>G := g\<rparr>)"
    and bal: "\<And>w x st. Q st (update_wallet_balance w x st)"
  shows "set outs \<subseteq> S \<Longrightarrow> emit_outputs h dt inp outs st = (st', e) \<Longrightarrow> Q st st'"
proof (induction outs arbitrary: st)
  case Nil
  then show ?case by (simp add: refl)
next
  case (Cons out outs)
  obtain g e1 where ae: "add_edge (fst inp) (fst out)
          \<lparr>edge_tx_id = h, edge_value = snd out, edge_date = dt\<rparr> (G st) = (g, e1)"
    by (cases "add_edge (fst inp) (fst out)
          \<lparr>edge_tx_id = h, edge_value = snd out, edge_date = dt\<rparr> (G st)")
  from Cons.prems(1) have "out \<in> S" by simp
  from edge [OF this ae] have q1: "Q st (st\<lparr>G := g\<rparr>)" .
  show ?case
  proof (cases e1)
    case (Some x)
    with ae Cons.prems(2) q1 show ?thesis by simp
  next
    case None
    show ?thesis
    proof (cases "py_float (snd inp)")
      case (Inl x)
      with ae None Cons.prems(2) q1 show ?thesis by simp
    next
      case (Inr x)
      let ?s1 = "update_wallet_balance (fst inp) (- x) (st\<lparr>G := g\<rparr>)"
      from q1 bal [of "st\<lparr>G := g\<rparr>"] have q2: "Q st ?s1" by (rule trans)
      show ?thesis
      proof (cases "py_float (snd out)")
        case (Inl y)
        with ae None Inr Cons.prems(2) q2 show ?thesis by (simp add: Let_def)
      next
        case y: (Inr y)
        let ?s2 = "update_wallet_balance (fst out) y ?s1"
        from q2 bal [of ?s1] have q3: "Q st ?s2" by (rule trans)
        from ae None Inr y Cons.prems(2)
        have "emit_outputs h dt inp outs ?s2 = (st', e)" by (simp add: Let_def)
        with Cons.IH [of ?s2] Cons.prems(1) have "Q ?s2 st'" by simp
        with q3 show ?thesis by (rule trans)
      qed
    qed
  qed
qed

lemma emit_edges_rule:
  fixes Q :: "state \<Rightarrow> state \<Rightarrow> bool"
  assumes refl: "\<And>st. Q st st"
    and trans: "\<And>a b c. Q a b \<Longrightarrow> Q b c \<Longrightarrow> Q a c"
    and edge: "\<And>st inp out g e. inp \<in> set ins \<Longrightarrow> out \<in> set outs \<Longrightarrow>
        add_edge (fst inp) (fst out)
          \<lparr>edge_tx_id = h, edge_value = snd out, edge_date = dt\<rparr> (G st) = (g, e) \<Longrightarrow>
        Q st (st\<lparr>G := g\<rparr>)"
    and bal: "\<And>w x st. Q st (update_wallet_balance w x st)"
    and run: "emit_edges h dt ins outs st = (st', e)"
  shows "Q st st'"
proof -
  have "set xs \<subseteq> set ins \<Longrightarrow> emit_edges h dt xs outs s = (st', e) \<Longrightarrow> Q s st'" for xs s
  proof (induction xs arbitrary: s)
    case Nil
    then show ?case by (simp add: refl)
  next
    case (Cons inp xs)
    obtain st1 e1 where 1: "emit_outputs h dt inp outs s = (st1, e1)"
      by (cases "emit_outputs h dt inp outs s")
    from Cons.prems(1) have inp: "inp \<in> set ins" by simp
    have q1: "Q s st1"
    proof (rule emit_outputs_rule [where Q = Q and S = "set outs", OF _ _ _ _ _ 1])
      show "Q a a" for a by (rule refl)
      show "Q a b \<Longrightarrow> Q b c \<Longrightarrow> Q a c" for a b c by (rule trans)
      show "out \<in> set outs \<Longrightarrow>
        add_edge (fst inp) (fst out)
          \<lparr>edge_tx_id = h, edge_value = snd out, edge_date = dt\<rparr> (G s) = (g, x) \<Longrightarrow>
        Q s (s\<lparr>G := g\<rparr>)" for s out g x
        using inp by (rule edge)
      show "Q s (update_wallet_balance w x s)" for w x s by (rule bal)
      show "set outs \<subseteq> set outs" by simp
    qed
    show ?case
    proof (cases e1)
      case None
      with 1 Cons.prems(2) have "emit_edges h dt xs outs st1 = (st', e)" by simp
      with Cons.IH [of st1] Cons.prems(1) have "Q st1 st'" by simp
      with q1 show ?thesis by (rule trans)
    next
      case (Some x)
      with 1 Cons.prems(2) q1 show ?thesis by simp
    qed
  qed
  from this [of ins st] run show ?thesis by simp
qed

lemma assign_attributes_keys: "map fst (fst (assign_attributes st ns)) = map fst ns"
  by (induction ns) (auto simp: Let_def split: option.splits prod.splits)

lemma finish_frame:
  "edges (G (fst (finish st))) = edges (G st)"
  "map fst (nodes (G (fst (finish st)))) = map fst (nodes (G st))"
  "wallet_balances (fst (finish st)) = wallet_balances st"
  "visited_transactions (fst (finish st)) = visited_transactions st"
  "executed (fst (finish st)) = executed st"
  using assign_attributes_keys [of st "nodes (G st)"]
  by (auto simp: finish_def split: prod.splits)

lemma state_rule:
  fixes Q :: "state \<Rightarrow> state \<Rightarrow> bool"
  assumes refl: "\<And>st. Q st st"
    and trans: "\<And>a b c. Q a b \<Longrightarrow> Q b c \<Longrightarrow> Q a c"
    and fetch: "\<And>h d qs st. Q st (fetching h d qs st)"
    and exec: "\<And>d q st. Q st (execute d q st)"
    and edge: "\<And>st h inp out dt g e. inp \<in> set (select_inputs db h) \<Longrightarrow>
        out \<in> set (select_outputs db h) \<Longrightarrow>
        add_edge (fst inp) (fst out)
          \<lparr>edge_tx_id = h, edge_value = snd out, edge_date = dt\<rparr> (G st) = (g, e) \<Longrightarrow>
        Q st (st\<lparr>G := g\<rparr>)"
    and bal: "\<And>w x st. Q st (update_wallet_balance w x st)"
  shows "process_transaction n db h d m st = Some (st', e) \<Longrightarrow> Q st st'"
proof (rule process_transaction_rule [where Q = "\<lambda>a b e. Q a b" and db = db])
  show "Q a a" for a by (rule refl)
  show "Q a b \<Longrightarrow> Q b c \<Longrightarrow> Q a c" for a b c by (rule trans)
  show "Q a (execute k (SelectSpending w) a)" for k w a by (rule exec)
  show "process_transaction n db h d m st = Some (st', e) \<Longrightarrow>
        process_transaction n db h d m st = Some (st', e)" .
  show "Q s s5" if "expand_one db k j s = (s5, f)" for k j s s5 f
    using that
  proof (cases rule: expand_one_cases)
    case (skip qs)
    then show ?thesis by (simp add: fetch)
  next
    case (emit row dt x)
    have "Q (fetching k j [SelectTransact k, SelectInputs k, SelectOutputs k] s) s5"
    proof (rule emit_edges_rule [where Q = Q, OF _ _ _ _ emit(3)])
      show "Q a a" for a by (rule refl)
      show "Q a b \<Longrightarrow> Q b c \<Longrightarrow> Q a c" for a b c by (rule trans)
      show "inp \<in> set (select_inputs db k) \<Longrightarrow> out \<in> set (select_outputs db k) \<Longrightarrow>
        add_edge (fst inp) (fst out)
          \<lparr>edge_tx_id = k, edge_value = snd out, edge_date = dt\<rparr> (G a) = (g, y) \<Longrightarrow>
        Q a (a\<lparr>G := g\<rparr>)" for a inp out g y
        by (rule edge)
      show "Q a (update_wallet_balance w y a)" for w y a by (rule bal)
    qed
    with fetch show ?thesis by (rule trans)
  qed
qed

lemma each_state_rule:
  fixes Q :: "state \<Rightarrow> state \<Rightarrow> bool"
  assumes refl: "\<And>st. Q st st"
    and trans: "\<And>a b c. Q a b \<Longrightarrow> Q b c \<Longrightarrow> Q a c"
    and fetch: "\<And>h d qs st. Q st (fetching h d qs st)"
    and exec: "\<And>d q st. Q st (execute d q st)"
    and edge: "\<And>st h inp out dt g e. inp \<in> set (select_inputs db h) \<Longrightarrow>
        out \<in> set (select_outputs db h) \<Longrightarrow>
        add_edge (fst inp) (fst out)
          \<lparr>edge_tx_id = h, edge_value = snd out, edge_date = dt\<rparr> (G st) = (g, e) \<Longrightarrow>
        Q st (st\<lparr>G := g\<rparr>)"
    and bal: "\<And>w x st. Q st (update_wallet_balance w x st)"
    and run: "process_each n db xs d m st = Some (st', e)"
  shows "Q st st'"
proof (rule process_each_rule [where Q = "\<lambda>a b e. Q a b", OF _ _ _ run])
  show "Q a a" for a by (rule refl)
  show "Q a b \<Longrightarrow> Q b c \<Longrightarrow> Q a c" for a b c by (rule trans)
  show "process_transaction n db k d m a = Some (b, y) \<Longrightarrow> Q a b" for k a b y
    by (rule state_rule [where Q = Q and db = db, OF refl trans fetch exec edge bal])
qed

lemma build_rule:
  fixes Q :: "state \<Rightarrow> state \<Rightarrow> bool"
  assumes refl: "\<And>st. Q st st"
    and trans: "\<And>a b c. Q a b \<Longrightarrow> Q b c \<Longrightarrow> Q a c"
    and fetch: "\<And>h d qs st. Q st (fetching h d qs st)"
    and exec: "\<And>d q st. Q st (execute d q st)"
    and edge: "\<And>st h inp out dt g e. inp \<in> set (select_inputs db h) \<Longrightarrow>
        out \<in> set (select_outputs db h) \<Longrightarrow>
        add_edge (fst inp) (fst out)
          \<lparr>edge_tx_id = h, edge_value = snd out, edge_date = dt\<rparr> (G st) = (g, e) \<Longrightarrow>
        Q st (st\<lparr>G := g\<rparr>)"
    and bal: "\<And>w x st. Q st (update_wallet_balance w x st)"
    and fin: "\<And>st. Q st (fst (finish st))"
    and run: "build_graph n db t m st = Some (st', e)"
  shows "Q st st'"
proof (cases "length t = 64")
  case True
  with run obtain st1 e1 where 1: "process_transaction n db t 1 m st = Some (st1, e1)"
    by (auto simp: build_graph_def split: option.splits)
  have q1: "Q st st1"
    by (rule state_rule [where Q = Q and db = db, OF refl trans fetch exec edge bal 1])
  show ?thesis
  proof (cases e1)
    case None
    with True 1 run have "st' = fst (finish st1)"
      by (cases "finish st1") (simp add: build_graph_def)
    with q1 fin [of st1] show ?thesis by (auto intro: trans)
  next
    case (Some x)
    with True 1 run q1 show ?thesis by (simp add: build_graph_def)
  qed
next
  case False
  let ?st0 = "execute 0 (SelectWallet t) st"
  have q0: "Q st ?st0" by (rule exec)
  show ?thesis
  proof (cases "sqlite_error db (SelectWallet t)")
    case True
    with False run q0 show ?thesis by (simp add: build_graph_def Let_def)
  next
    case ok: False
    with False run obtain st1 e1 where
      1: "process_each n db (select_wallet db t) 1 m ?st0 = Some (st1, e1)"
      by (auto simp: build_graph_def Let_def split: option.splits)
    have "Q ?st0 st1"
      by (rule each_state_rule [where Q = Q and db = db, OF refl trans fetch exec edge bal 1])
    with q0 have q1: "Q st st1" by (rule trans)
    show ?thesis
    proof (cases e1)
      case None
      with False ok 1 run have "st' = fst (finish st1)"
        by (cases "finish st1") (simp add: build_graph_def Let_def)
      with q1 fin [of st1] show ?thesis by (auto intro: trans)
    next
      case (Some x)
      with False ok 1 run q1 show ?thesis by (simp add: build_graph_def Let_def)
    qed
  qed
qed

lemma set_update_subset: "set (AList.update k v al) \<subseteq> insert (k, v) (set al)"
  by (induction al) auto

lemma fetching_frame [simp]:
  "G (fetching h d qs st) = G st"
  "wallet_balances (fetching h d qs st) = wallet_balances st"
  "visited_transactions (fetching h d qs st) = insert h (visited_transactions st)"
  "executed (fetching h d qs st) = executed st @ map (Pair d) qs"
  by (simp_all add: fetching_def)

lemma graph_ok_edge:
  assumes "inp \<in> set (select_inputs db h)" and "out \<in> set (select_outputs db h)"
    and ae: "add_edge (fst inp) (fst out)
          \<lparr>edge_tx_id = h, edge_value = snd out, edge_date = dt\<rparr> (G st) = (g, e)"
    and ok: "graph_ok db st"
  shows "graph_ok db (st\<lparr>G := g\<rparr>)"
proof (cases e)
  case (Some x)
  with ae add_edge_raise [of "fst inp" "fst out" _ "G st" g x] ok
  show ?thesis by (simp add: graph_ok_def)
next
  case None
  note r = add_edge_ok [OF ae [unfolded None]]
  from ok have nn: "None \<notin> fst ` set (nodes (G st))" by (simp add: graph_ok_def)
  from r(3) [OF nn] have uv: "fst inp \<noteq> None" "fst out \<noteq> None" by simp_all
  have new: "edge_ok db ((fst inp, fst out),
      \<lparr>edge_tx_id = h, edge_value = snd out, edge_date = dt\<rparr>)"
    using assms(1,2) uv by (simp add: edge_ok_def)
  have "edge_ok db x" if "x \<in> set (edges g)" for x
  proof -
    from that r(1) set_update_subset [of "(fst inp, fst out)" _ "edges (G st)"]
    have "x = ((fst inp, fst out), \<lparr>edge_tx_id = h, edge_value = snd out, edge_date = dt\<rparr>)
        \<or> x \<in> set (edges (G st))" by auto
    with new ok show ?thesis by (auto simp: graph_ok_def)
  qed
  moreover have "None \<notin> fst ` set (nodes g)"
    using r(2) nn uv by auto
  ultimately show ?thesis by (simp add: graph_ok_def)
qed

lemma graph_ok_finish: "graph_ok db (fst (finish st)) = graph_ok db st"
proof -
  have "fst ` set (nodes (G (fst (finish st)))) = fst ` set (nodes (G st))"
    using finish_frame(2) [of st] by (metis list.set_map)
  then show ?thesis by (simp add: graph_ok_def finish_frame(1))
qed

lemma expand_one_rule:
  fixes Q :: "state \<Rightarrow> state \<Rightarrow> bool"
  assumes trans: "\<And>a b c. Q a b \<Longrightarrow> Q b c \<Longrightarrow> Q a c"
    and fetch: "\<And>h d qs st. Q st (fetching h d qs st)"
    and em: "\<And>st st' h dt e.
        emit_edges h dt (select_inputs db h) (select_outputs db h) st = (st', e) \<Longrightarrow> Q st st'"
    and run: "expand_one db h d st = (st5, f)"
  shows "Q st st5"
  using run
proof (cases rule: expand_one_cases)
  case (skip qs)
  then show ?thesis by (simp add: fetch)
next
  case (emit row dt x)
  from fetch em [OF emit(3)] show ?thesis by (rule trans)
qed

lemma all_rule:
  fixes Q :: "state \<Rightarrow> state \<Rightarrow> bool"
  assumes refl: "\<And>st. Q st st"
    and trans: "\<And>a b c. Q a b \<Longrightarrow> Q b c \<Longrightarrow> Q a c"
    and fetch: "\<And>h d qs st. Q st (fetching h d qs st)"
    and exec: "\<And>d q st. Q st (execute d q st)"
    and edge: "\<And>st h inp out dt g e. inp \<in> set (select_inputs db h) \<Longrightarrow>
        out \<in> set (select_outputs db h) \<Longrightarrow>
        add_edge (fst inp) (fst out)
          \<lparr>edge_tx_id = h, edge_value = snd out, edge_date = dt\<rparr> (G st) = (g, e) \<Longrightarrow>
        Q st (st\<lparr>G := g\<rparr>)"
    and bal: "\<And>w x st. Q st (update_wallet_balance w x st)"
    and fin: "\<And>st. Q st (fst (finish st))"
  shows "(expand_one db h d st = (st', f) \<longrightarrow> Q st st') \<and>
         (process_transaction n db h d m st = Some (st', e) \<longrightarrow> Q st st') \<and>
         (build_graph n db t m st = Some (st', e) \<longrightarrow> Q st st')"
proof (intro conjI impI)
  assume run: "expand_one db h d st = (st', f)"
  show "Q st st'"
  proof (rule expand_one_rule [where Q = Q, OF trans fetch _ run])
    show "Q a b" if "emit_edges k dt (select_inputs db k) (select_outputs db k) a = (b, x)"
      for a b k dt x
      by (rule emit_edges_rule [where Q = Q, OF refl trans edge bal that])
  qed
next
  assume run: "process_transaction n db h d m st = Some (st', e)"
  show "Q st st'"
    by (rule state_rule [where Q = Q and db = db, OF refl trans fetch exec edge bal run])
next
  assume run: "build_graph n db t m st = Some (st', e)"
  show "Q st st'"
    by (rule build_rule [where Q = Q and db = db, OF refl trans fetch exec edge bal fin run])
qed

lemma graph_ok_kept:
  "(expand_one db h d st = (st', f) \<longrightarrow> graph_ok db st \<longrightarrow> graph_ok db st') \<and>
   (process_transaction n db h d m st = Some (st', e) \<longrightarrow> graph_ok db st \<longrightarrow> graph_ok db st') \<and>
   (build_graph n db t m st = Some (st', e) \<longrightarrow> graph_ok db st \<longrightarrow> graph_ok db st')"
proof (rule all_rule [where Q = "\<lambda>a b. graph_ok db a \<longrightarrow> graph_ok db b"])
  show "graph_ok db a \<longrightarrow> graph_ok db a" for a by simp
  show "graph_ok db a \<longrightarrow> graph_ok db b \<Longrightarrow> graph_ok db b \<longrightarrow> graph_ok db c \<Longrightarrow>
        graph_ok db a \<longrightarrow> graph_ok db c" for a b c by simp
  show "graph_ok db a \<longrightarrow> graph_ok db (fetching k j qs a)" for k j qs a
    by (simp add: graph_ok_def)
  show "graph_ok db a \<longrightarrow> graph_ok db (execute j q a)" for j q a
    by (simp add: graph_ok_def)
  show "graph_ok db a \<longrightarrow> graph_ok db (update_wallet_balance w x a)" for w x a
    by (simp add: graph_ok_def)
  show "graph_ok db a \<longrightarrow> graph_ok db (fst (finish a))" for a
    by (simp add: graph_ok_finish)
  show "inp \<in> set (select_inputs db k) \<Longrightarrow> out \<in> set (select_outputs db k) \<Longrightarrow>
        add_edge (fst inp) (fst out)
          \<lparr>edge_tx_id = k, edge_value = snd out, edge_date = dt\<rparr> (G a) = (g, x) \<Longrightarrow>
        graph_ok db a \<longrightarrow> graph_ok db (a\<lparr>G := g\<rparr>)" for a k inp out dt g x
    using graph_ok_edge by blast
qed

lemma simple_kept:
  "(expand_one db h d st = (st', f) \<longrightarrow>
      distinct (map fst (edges (G st))) \<longrightarrow> distinct (map fst (edges (G st')))) \<and>
   (process_transaction n db h d m st = Some (st', e) \<longrightarrow>
      distinct (map fst (edges (G st))) \<longrightarrow> distinct (map fst (edges (G st')))) \<and>
   (build_graph n db t m st = Some (st', e) \<longrightarrow>
      distinct (map fst (edges (G st))) \<longrightarrow> distinct (map fst (edges (G st'))))"
proof (rule all_rule [where Q = "\<lambda>a b. distinct (map fst (edges (G a))) \<longrightarrow>
    distinct (map fst (edges (G b)))"])
  let ?D = "\<lambda>a. distinct (map fst (edges (G a)))"
  show "?D a \<longrightarrow> ?D a" for a by simp
  show "?D a \<longrightarrow> ?D b \<Longrightarrow> ?D b \<longrightarrow> ?D c \<Longrightarrow> ?D a \<longrightarrow> ?D c" for a b c by simp
  show "?D a \<longrightarrow> ?D (fetching k j qs a)" for k j qs a by simp
  show "?D a \<longrightarrow> ?D (execute j q a)" for j q a by simp
  show "?D a \<longrightarrow> ?D (update_wallet_balance w x a)" for w x a by simp
  show "?D a \<longrightarrow> ?D (fst (finish a))" for a by (simp add: finish_frame(1))
  show "?D a \<longrightarrow> ?D (a\<lparr>G := g\<rparr>)"
    if ae: "add_edge (fst inp) (fst out)
          \<lparr>edge_tx_id = k, edge_value = snd out, edge_date = dt\<rparr> (G a) = (g, x)"
    for a k inp out dt g x
  proof (cases x)
    case None
    from add_edge_ok(1) [OF ae [unfolded None]] show ?thesis
      by (simp add: distinct_update)
  next
    case (Some y)
    from add_edge_raise(1) [OF ae [unfolded Some]] show ?thesis by simp
  qed
qed

lemma kept_steps:
  "(expand_one db h d st = (st', f) \<longrightarrow> kept st st') \<and>
   (process_transaction n db h d m st = Some (st', e) \<longrightarrow> kept st st') \<and>
   (build_graph n db t m st = Some (st', e) \<longrightarrow> kept st st')"
proof (rule all_rule [where Q = kept])
  show "kept a a" for a by (simp add: kept_def)
  show "kept a c" if "kept a b" and "kept b c" for a b c
    using that unfolding kept_def
    by (elim conjE) (intro conjI; (erule order_trans, assumption))
  show "kept a (fetching k j qs a)" for k j qs a by (auto simp: kept_def)
  show "kept a (execute j q a)" for j q a by (simp add: kept_def)
  show "kept a (update_wallet_balance w x a)" for w x a
    by (auto simp: kept_def update_wallet_balance_def dom_update)
  show "kept a (fst (finish a))" for a
  proof -
    have "fst ` set (nodes (G (fst (finish a)))) = fst ` set (nodes (G a))"
      using finish_frame(2) [of a] by (metis list.set_map)
    then show ?thesis by (simp add: kept_def finish_frame)
  qed
  show "inp \<in> set (select_inputs db k) \<Longrightarrow> out \<in> set (select_outputs db k) \<Longrightarrow>
        add_edge (fst inp) (fst out)
          \<lparr>edge_tx_id = k, edge_value = snd out, edge_date = dt\<rparr> (G a) = (g, x) \<Longrightarrow>
        kept a (a\<lparr>G := g\<rparr>)" for a k inp out dt g x
  proof (cases x)
    case None
    assume "add_edge (fst inp) (fst out)
          \<lparr>edge_tx_id = k, edge_value = snd out, edge_date = dt\<rparr> (G a) = (g, x)"
    from add_edge_ok(1,2) [OF this [unfolded None]] show ?thesis
      by (auto simp: kept_def dom_update)
  next
    case (Some y)
    assume "add_edge (fst inp) (fst out)
          \<lparr>edge_tx_id = k, edge_value = snd out, edge_date = dt\<rparr> (G a) = (g, x)"
    from add_edge_raise(1,2) [OF this [unfolded Some]] show ?thesis
      by (auto simp: kept_def)
  qed
qed

lemma emit_outputs_present:
  assumes "fst inp \<noteq> None" and "snd inp \<noteq> None"
  shows "\<forall>p \<in> set outs. fst p \<noteq> None \<and> snd p \<noteq> None \<Longrightarrow>
         snd (emit_outputs h dt inp outs st) = None"
proof (induction outs arbitrary: st)
  case Nil
  show ?case by simp
next
  case (Cons out outs)
  from assms obtain s x where inp: "fst inp = Some s" "snd inp = Some x" by auto
  from Cons.prems obtain r y where out: "fst out = Some r" "snd out = Some y" by auto
  from Cons.prems have "\<forall>p \<in> set outs. fst p \<noteq> None \<and> snd p \<noteq> None" by simp
  note IH = Cons.IH [OF this]
  show ?case
    by (simp add: inp out add_edge_unfold py_float_def Let_def IH)
qed

lemma emit_edges_present:
  assumes "\<forall>p \<in> set outs. fst p \<noteq> None \<and> snd p \<noteq> None"
  shows "\<forall>p \<in> set ins. fst p \<noteq> None \<and> snd p \<noteq> None \<Longrightarrow>
         snd (emit_edges h dt ins outs st) = None"
proof (induction ins arbitrary: st)
  case Nil
  show ?case by simp
next
  case (Cons inp ins)
  from Cons.prems have "fst inp \<noteq> None" "snd inp \<noteq> None" by simp_all
  from emit_outputs_present [OF this assms, of h dt st]
  obtain st1 where 1: "emit_outputs h dt inp outs st = (st1, None)"
    by (cases "emit_outputs h dt inp outs st") simp
  from Cons.prems have "\<forall>p \<in> set ins. fst p \<noteq> None \<and> snd p \<noteq> None" by simp
  from Cons.IH [OF this, of st1] 1 show ?case by simp
qed

lemma select_present:
  assumes "no_nulls db"
  shows "\<forall>p \<in> set (select_inputs db h). fst p \<noteq> None \<and> snd p \<noteq> None"
    and "\<forall>p \<in> set (select_outputs db h). fst p \<noteq> None \<and> snd p \<noteq> None"
  using assms by (auto simp: no_nulls_def select_inputs_def select_outputs_def)

lemma expand_one_no_raise:
  assumes "no_nulls db" and "expand_one db h d st = (st5, f)"
  shows "(case f of Stop e \<Rightarrow> e | Continue outs \<Rightarrow> None) = None"
  using assms(2)
proof (cases rule: expand_one_cases)
  case (skip qs)
  then show ?thesis by simp
next
  case (emit row dt e)
  from emit_edges_present
      [OF select_present(2) [OF assms(1), of h] select_present(1) [OF assms(1), of h],
       where h = h and dt = dt
        and st = "fetching h d [SelectTransact h, SelectInputs h, SelectOutputs h] st"] emit(3)
  have "e = None" by simp
  with emit(4) show ?thesis by simp
qed

lemma no_raise:
  assumes "no_nulls db" and run: "process_transaction n db h d m st = Some (st', e)"
  shows "e = None"
proof (rule process_transaction_rule [where Q = "\<lambda>a b e. e = None", OF _ _ _ _ run])
  show "(case f of Stop e \<Rightarrow> e | Continue outs \<Rightarrow> None) = None"
    if "expand_one db k j a = (b, f)" for k j a b f
    using assms(1) that by (rule expand_one_no_raise)
qed simp_all

lemma each_no_raise:
  assumes "no_nulls db" and run: "process_each n db xs d m st = Some (st', e)"
  shows "e = None"
proof (rule process_each_rule [where Q = "\<lambda>a b e. e = None", OF _ _ _ run])
  show "y = None" if "process_transaction n db k d m a = Some (b, y)" for k a b y
    using assms(1) that by (rule no_raise)
qed simp_all

lemma nodes_kept:
  "(expand_one db h d st = (st', f) \<longrightarrow>
      None \<notin> fst ` set (nodes (G st)) \<longrightarrow> None \<notin> fst ` set (nodes (G st'))) \<and>
   (process_transaction n db h d m st = Some (st', e) \<longrightarrow>
      None \<notin> fst ` set (nodes (G st)) \<longrightarrow> None \<notin> fst ` set (nodes (G st'))) \<and>
   (build_graph n db t m st = Some (st', e) \<longrightarrow>
      None \<notin> fst ` set (nodes (G st)) \<longrightarrow> None \<notin> fst ` set (nodes (G st')))"
proof (rule all_rule [where Q = "\<lambda>a b. None \<notin> fst ` set (nodes (G a)) \<longrightarrow>
    None \<notin> fst ` set (nodes (G b))"])
  let ?N = "\<lambda>a. None \<notin> fst ` set (nodes (G a))"
  show "?N a \<longrightarrow> ?N a" for a by simp
  show "?N a \<longrightarrow> ?N b \<Longrightarrow> ?N b \<longrightarrow> ?N c \<Longrightarrow> ?N a \<longrightarrow> ?N c" for a b c by simp
  show "?N a \<longrightarrow> ?N (fetching k j qs a)" for k j qs a by simp
  show "?N a \<longrightarrow> ?N (execute j q a)" for j q a by simp
  show "?N a \<longrightarrow> ?N (update_wallet_balance w x a)" for w x a by simp
  show "?N a \<longrightarrow> ?N (fst (finish a))" for a
  proof -
    have "fst ` set (nodes (G (fst (finish a)))) = fst ` set (nodes (G a))"
      using finish_frame(2) [of a] by (metis list.set_map)
    then show ?thesis by simp
  qed
  show "?N a \<longrightarrow> ?N (a\<lparr>G := g\<rparr>)"
    if ae: "add_edge (fst inp) (fst out)
          \<lparr>edge_tx_id = k, edge_value = snd out, edge_date = dt\<rparr> (G a) = (g, x)"
    for a k inp out dt g x
  proof (cases x)
    case None
    from add_edge_ok(2,3) [OF ae [unfolded None]] show ?thesis by auto
  next
    case (Some y)
    from add_edge_raise(3) [OF ae [unfolded Some]] show ?thesis by simp
  qed
qed

lemma nodes_kept_each:
  assumes run: "process_each n db xs d m st = Some (st', e)"
  shows "None \<notin> fst ` set (nodes (G st)) \<longrightarrow> None \<notin> fst ` set (nodes (G st'))"
proof (rule process_each_rule [where Q = "\<lambda>a b e. None \<notin> fst ` set (nodes (G a)) \<longrightarrow>
    None \<notin> fst ` set (nodes (G b))", OF _ _ _ run])
  show "None \<notin> fst ` set (nodes (G a)) \<longrightarrow> None \<notin> fst ` set (nodes (G b))"
    if "process_transaction n db k d m a = Some (b, y)" for k a b y
    using that nodes_kept [of db k d a b _ n m y] by simp
qed simp_all

lemma assign_attributes_ok:
  "None \<notin> fst ` set ns \<Longrightarrow> snd (assign_attributes st ns) = None"
  by (induction ns) (auto simp: Let_def split: option.splits prod.splits)

lemma finish_ok: "None \<notin> fst ` set (nodes (G st)) \<Longrightarrow> snd (finish st) = None"
  using assign_attributes_ok [of "nodes (G st)" st]
  by (cases "assign_attributes st (nodes (G st))") (simp add: finish_def)

lemma build_no_raise:
  assumes nn: "no_nulls db" and nodes: "None \<notin> fst ` set (nodes (G st))"
    and run: "build_graph n db t m st = Some (st', e)"
  shows "e = None"
proof (cases "length t = 64")
  case True
  with run obtain st1 e1 where 1: "process_transaction n db t 1 m st = Some (st1, e1)"
    by (auto simp: build_graph_def split: option.splits)
  from no_raise [OF nn 1] have e1: "e1 = None" .
  from nodes_kept [of db t 1 st st1 _ n m e1] 1 nodes
  have "None \<notin> fst ` set (nodes (G st1))" by simp
  from finish_ok [OF this] True 1 e1 run show ?thesis
    by (cases "finish st1") (simp add: build_graph_def)
next
  case False
  show ?thesis
  proof (cases "sqlite_error db (SelectWallet t)")
    case True
    with False run show ?thesis by (simp add: build_graph_def Let_def)
  next
    case ok: False
    let ?st0 = "execute 0 (SelectWallet t) st"
    from False ok run obtain st1 e1 where
      1: "process_each n db (select_wallet db t) 1 m ?st0 = Some (st1, e1)"
      by (auto simp: build_graph_def Let_def split: option.splits)
    from each_no_raise [OF nn 1] have e1: "e1 = None" .
    from nodes_kept_each [OF 1] nodes have "None \<notin> fst ` set (nodes (G st1))" by simp
    from finish_ok [OF this] False ok 1 e1 run show ?thesis
      by (cases "finish st1") (simp add: build_graph_def Let_def)
  qed
qed

lemma missing_record:
  assumes "h \<notin> visited_transactions st" and "\<not> sqlite_error db (SelectTransact h)"
    and "select_transact db h = None"
  shows "process_transaction (Suc n) db h d m st =
           Some (fetching h d [SelectTransact h] st, None)"
  using assms by (simp add: expand_one_def Let_def fetching_def execute_def)

section \<open>The example builds\<close>

lemma build_A:
  "build_graph (Suc 0) ledger ''A'' 1 init =
     Some (\<lparr>G = \<lparr>nodes =
                  [(Some ''A'', \<lparr>node_balance = Some (- 17),
                                 node_label = Some (''A'', ''A'', - 17)\<rparr>),
                   (Some ''B'', \<lparr>node_balance = Some 7, node_label = Some (''B'', ''B'', 7)\<rparr>),
                   (Some ''C'', \<lparr>node_balance = Some 2, node_label = Some (''C'', ''C'', 2)\<rparr>)],
                edges =
                  [((Some ''A'', Some ''B''),
                    \<lparr>edge_tx_id = ''tx3'', edge_value = Some 4, edge_date = ''2024-01-03''\<rparr>),
                   ((Some ''A'', Some ''C''),
                    \<lparr>edge_tx_id = ''tx1'', edge_value = Some 2, edge_date = ''2024-01-01''\<rparr>)]\<rparr>,
             wallet_balances = [(Some ''A'', - 17), (Some ''B'', 7), (Some ''C'', 2)],
             visited_transactions = {''tx3'', ''tx1''},
             executed =
               [(0, SelectWallet ''A''), (1, SelectTransact ''tx1''),
                (1, SelectInputs ''tx1''), (1, SelectOutputs ''tx1''),
                (1, SelectTransact ''tx3''), (1, SelectInputs ''tx3''),
                (1, SelectOutputs ''tx3'')]\<rparr>, None)"
  by (simp add: run_defs ledger_def)

lemma build_D: "build_graph (Suc 0) ledger ''D'' 1 init = Some (after_D, None)"
  by (simp add: run_defs ledger_def after_D_def)

lemma build_D_C: "build_graph (Suc 0) ledger ''C'' 1 after_D = Some (after_D_C, None)"
  by (simp add: run_defs ledger_def after_D_def after_D_C_def)

lemma build_C:
  "build_graph (Suc 0) ledger ''C'' 1 init =
     Some (\<lparr>G = \<lparr>nodes =
                  [(Some ''A'', \<lparr>node_balance = Some (- 10),
                                 node_label = Some (''A'', ''A'', - 10)\<rparr>),
                   (Some ''B'', \<lparr>node_balance = Some 3, node_label = Some (''B'', ''B'', 3)\<rparr>),
                   (Some ''C'', \<lparr>node_balance = Some 2, node_label = Some (''C'', ''C'', 2)\<rparr>)],
                edges =
                  [((Some ''A'', Some ''B''),
                    \<lparr>edge_tx_id = ''tx1'', edge_value = Some 3, edge_date = ''2024-01-01''\<rparr>),
                   ((Some ''A'', Some ''C''),
                    \<lparr>edge_tx_id = ''tx1'', edge_value = Some 2, edge_date = ''2024-01-01''\<rparr>)]\<rparr>,
             wallet_balances = [(Some ''A'', - 10), (Some ''B'', 3), (Some ''C'', 2)],
             visited_transactions = {''tx1''},
             executed =
               [(0, SelectWallet ''C''), (1, SelectTransact ''tx1''),
                (1, SelectInputs ''tx1''), (1, SelectOutputs ''tx1'')]\<rparr>, None)"
  by (simp add: run_defs ledger_def)

lemma build_null:
  "build_graph (Suc 0) null_ledger ''E'' 0 init =
     Some (\<lparr>G = \<lparr>nodes = [(Some ''E'', \<lparr>node_balance = None, node_label = None\<rparr>)],
                edges = []\<rparr>,
             wallet_balances = [], visited_transactions = {''u1''},
             executed =
               [(0, SelectWallet ''E''), (1, SelectTransact ''u1''),
                (1, SelectInputs ''u1''), (1, SelectOutputs ''u1'')]\<rparr>, Some ValueError)"
  by (simp add: run_defs null_ledger_def)

lemma length_update:
  "length (AList.update k v al) = (if k \<in> fst ` set al then length al else Suc (length al))"
  by (induction al) auto

lemma graph_ok_init: "graph_ok db init"
  by (simp add: graph_ok_def init_def)

lemma no_nulls_ledger: "no_nulls ledger"
  by (simp add: no_nulls_def ledger_def)

section \<open>The cross product of inputs and outputs\<close>

lemma present_rows:
  assumes "no_nulls db"
  shows "\<exists>ins outs. select_inputs db h = present ins \<and> select_outputs db h = present outs"
proof -
  let ?ins = "map (\<lambda>r. (the (in_recipient r), the (in_value r)))
                (filter (\<lambda>r. in_transaction_hash r = h) (INPUTS db))"
  let ?outs = "map (\<lambda>r. (the (out_recipient r), the (out_value r)))
                 (filter (\<lambda>r. out_transaction_hash r = h) (OUTPUTS db))"
  from assms have "select_inputs db h = present ?ins"
    by (auto simp: select_inputs_def present_def no_nulls_def)
  moreover from assms have "select_outputs db h = present ?outs"
    by (auto simp: select_outputs_def present_def no_nulls_def)
  ultimately show ?thesis by blast
qed

lemma balance_of_update:
  "balance_of (update_wallet_balance w v st) a =
     (if a = w then balance_of st w + v else balance_of st a)"
  by (simp add: balance_of_def update_wallet_balance_def update_conv')

lemma balance_of_G [simp]: "balance_of (st\<lparr>G := g\<rparr>) a = balance_of st a"
  by (simp add: balance_of_def)

lemma edges_emit_pair:
  "edges (G (emit_pair h dt i out st)) =
     AList.update (Some (fst i), Some (fst out))
       \<lparr>edge_tx_id = h, edge_value = Some (snd out), edge_date = dt\<rparr> (edges (G st))"
  by (simp add: emit_pair_def add_edge_present)

lemma balance_emit_pair:
  "balance_of (emit_pair h dt i out st) (Some a) =
     balance_of st (Some a) + (if fst i = a then - snd i else 0)
       + (if fst out = a then snd out else 0)"
  by (simp add: emit_pair_def balance_of_update)

lemma emit_outputs_fold:
  "emit_outputs h dt (Some (fst i), Some (snd i)) (present outs) st =
     (fold (emit_pair h dt i) outs st, None)"
proof (induction outs arbitrary: st)
  case Nil
  show ?case by (simp add: present_def)
next
  case (Cons out outs)
  have "present (out # outs) = (Some (fst out), Some (snd out)) # present outs"
    by (simp add: present_def)
  then show ?case
    using Cons.IH [of "emit_pair h dt i out st"]
    by (simp add: add_edge_present py_float_def emit_pair_def)
qed

lemma emit_edges_fold:
  "emit_edges h dt (present ins) (present outs) st =
     (fold (\<lambda>i. fold (emit_pair h dt i) outs) ins st, None)"
proof (induction ins arbitrary: st)
  case Nil
  show ?case by (simp add: present_def)
next
  case (Cons i ins)
  have "present (i # ins) = (Some (fst i), Some (snd i)) # present ins"
    by (simp add: present_def)
  then show ?case
    using Cons.IH [of "fold (emit_pair h dt i) outs st"]
    by (simp add: emit_outputs_fold)
qed

lemma inner_keys:
  "fst ` set (edges (G (fold (emit_pair h dt i) outs st))) =
     fst ` set (edges (G st)) \<union> {Some (fst i)} \<times> (Some ` fst ` set outs)"
proof (induction outs arbitrary: st)
  case Nil
  show ?case by simp
next
  case (Cons out outs)
  show ?case
    by (simp add: Cons.IH edges_emit_pair dom_update del: image_insert) blast
qed

lemma inner_other:
  "k \<notin> {Some (fst i)} \<times> (Some ` fst ` set outs) \<Longrightarrow>
   map_of (edges (G (fold (emit_pair h dt i) outs st))) k = map_of (edges (G st)) k"
proof (induction outs arbitrary: st)
  case Nil
  show ?case by simp
next
  case (Cons out outs)
  from Cons.prems have 1: "k \<notin> {Some (fst i)} \<times> (Some ` fst ` set outs)"
    and 2: "k \<noteq> (Some (fst i), Some (fst out))" by auto
  from Cons.IH [OF 1, of "emit_pair h dt i out st"] 2 show ?case
    by (simp add: edges_emit_pair update_conv')
qed

lemma inner_new:
  "distinct (map fst outs) \<Longrightarrow> out \<in> set outs \<Longrightarrow>
   map_of (edges (G (fold (emit_pair h dt i) outs st))) (Some (fst i), Some (fst out)) =
     Some \<lparr>edge_tx_id = h, edge_value = Some (snd out), edge_date = dt\<rparr>"
proof (induction outs arbitrary: st)
  case Nil
  then show ?case by simp
next
  case (Cons o1 outs)
  show ?case
  proof (cases "out = o1")
    case True
    from Cons.prems(1) have "fst o1 \<notin> fst ` set outs" by simp
    then have "(Some (fst i), Some (fst o1)) \<notin> {Some (fst i)} \<times> (Some ` fst ` set outs)"
      by auto
    from inner_other [OF this, of h dt "emit_pair h dt i o1 st"] True show ?thesis
      by (simp add: edges_emit_pair update_conv')
  next
    case False
    with Cons.prems have "distinct (map fst outs)" "out \<in> set outs" by simp_all
    from Cons.IH [OF this, of "emit_pair h dt i o1 st"] show ?thesis by simp
  qed
qed

lemma total_of_simps [simp]:
  "total_of a [] = 0"
  "total_of a (r # rs) = (if fst r = a then snd r else 0) + total_of a rs"
  by (simp_all add: total_of_def)

lemma inner_balance:
  "balance_of (fold (emit_pair h dt i) outs st) (Some a) =
     balance_of st (Some a) - (if fst i = a then real (length outs) * snd i else 0)
       + total_of a outs"
proof (induction outs arbitrary: st)
  case Nil
  show ?case by simp
next
  case (Cons out outs)
  show ?case
    by (simp add: Cons.IH balance_emit_pair algebra_simps)
qed

lemma outer_keys:
  "fst ` set (edges (G (fold (\<lambda>i. fold (emit_pair h dt i) outs) ins st))) =
     fst ` set (edges (G st)) \<union> pairs ins outs"
proof (induction ins arbitrary: st)
  case Nil
  show ?case by (simp add: pairs_def)
next
  case (Cons i ins)
  have "pairs (i # ins) outs = {Some (fst i)} \<times> (Some ` fst ` set outs) \<union> pairs ins outs"
    by (auto simp: pairs_def)
  with Cons.IH [of "fold (emit_pair h dt i) outs st"] show ?case
    by (simp add: inner_keys Un_assoc)
qed

lemma outer_other:
  "k \<notin> pairs ins outs \<Longrightarrow>
   map_of (edges (G (fold (\<lambda>i. fold (emit_pair h dt i) outs) ins st))) k =
     map_of (edges (G st)) k"
proof (induction ins arbitrary: st)
  case Nil
  show ?case by simp
next
  case (Cons i ins)
  from Cons.prems have 1: "k \<notin> pairs ins outs"
    and 2: "k \<notin> {Some (fst i)} \<times> (Some ` fst ` set outs)"
    by (auto simp: pairs_def)
  from Cons.IH [OF 1, of "fold (emit_pair h dt i) outs st"] inner_other [OF 2, of h dt st]
  show ?case by simp
qed

lemma outer_new:
  assumes "distinct (map fst outs)" and "out \<in> set outs"
  shows "s \<in> fst ` set ins \<Longrightarrow>
   map_of (edges (G (fold (\<lambda>i. fold (emit_pair h dt i) outs) ins st)))
       (Some s, Some (fst out)) =
     Some \<lparr>edge_tx_id = h, edge_value = Some (snd out), edge_date = dt\<rparr>"
proof (induction ins arbitrary: st)
  case Nil
  then show ?case by simp
next
  case (Cons i1 ins)
  let ?st1 = "fold (emit_pair h dt i1) outs st"
  show ?case
  proof (cases "s \<in> fst ` set ins")
    case True
    from Cons.IH [OF this, of ?st1] show ?thesis by simp
  next
    case False
    with Cons.prems have eq: "s = fst i1" by auto
    from False have "(Some s, Some (fst out)) \<notin> pairs ins outs"
      by (auto simp: pairs_def)
    from outer_other [OF this, of h dt ?st1] inner_new [OF assms, of h dt i1 st] eq
    show ?thesis by simp
  qed
qed

lemma outer_balance:
  "balance_of (fold (\<lambda>i. fold (emit_pair h dt i) outs) ins st) (Some a) =
     balance_of st (Some a) - real (length outs) * total_of a ins
       + real (length ins) * total_of a outs"
proof (induction ins arbitrary: st)
  case Nil
  show ?case by simp
next
  case (Cons i ins)
  show ?case
    by (simp add: Cons.IH inner_balance algebra_simps)
qed


lemma emit_pair_distinct:
  "distinct (map fst (edges (G st))) \<Longrightarrow>
   distinct (map fst (edges (G (fold (\<lambda>i. fold (emit_pair h dt i) outs) ins st))))"
proof (induction ins arbitrary: st)
  case Nil
  then show ?case by simp
next
  case (Cons i ins)
  have "distinct (map fst (edges (G s))) \<Longrightarrow>
        distinct (map fst (edges (G (fold (emit_pair h dt i) outs s))))" for s
    by (induction outs arbitrary: s) (simp_all add: edges_emit_pair distinct_update)
  from Cons.IH [OF this [OF Cons.prems]] show ?case by simp
qed

lemma card_pairs:
  assumes "distinct (map fst ins)" and "distinct (map fst outs)"
  shows "card (pairs ins outs) = length ins * length outs"
proof -
  have "card (Some ` fst ` set xs) = length xs" if "distinct (map fst xs)"
    for xs :: "(string \<times> real) list"
  proof -
    have "card (Some ` fst ` set xs) = card (fst ` set xs)"
      by (rule card_image) simp
    also have "\<dots> = card (set (map fst xs))" by simp
    also have "\<dots> = length (map fst xs)" using that by (rule distinct_card)
    finally show ?thesis by simp
  qed
  from this [OF assms(1)] this [OF assms(2)] show ?thesis
    by (simp add: pairs_def card_cartesian_product)
qed

lemma card_keys: "distinct (map fst xs) \<Longrightarrow> card (fst ` set xs) = length xs"
  using distinct_card [of "map fst xs"] by simp

lemma outer_length:
  assumes "distinct (map fst ins)" and "distinct (map fst outs)"
    and d: "distinct (map fst (edges (G st)))"
    and new: "fst ` set (edges (G st)) \<inter> pairs ins outs = {}"
  shows "length (edges (G (fold (\<lambda>i. fold (emit_pair h dt i) outs) ins st))) =
         length (edges (G st)) + length ins * length outs"
proof -
  let ?st' = "fold (\<lambda>i. fold (emit_pair h dt i) outs) ins st"
  have "length (edges (G ?st')) = card (fst ` set (edges (G ?st')))"
    using emit_pair_distinct [OF d, of h dt outs ins] by (simp add: card_keys)
  also have "\<dots> = card (fst ` set (edges (G st)) \<union> pairs ins outs)"
    using outer_keys [of h dt outs ins st] by simp
  also have "\<dots> = card (fst ` set (edges (G st))) + card (pairs ins outs)"
    using new by (intro card_Un_disjoint) (auto simp: pairs_def)
  also have "card (fst ` set (edges (G st))) = length (edges (G st))"
    using d by (rule card_keys)
  finally show ?thesis by (simp add: card_pairs [OF assms(1,2)])
qed


lemma fold_product:
  "fold (\<lambda>x. fold (f x) ys) xs s = fold (\<lambda>p. f (fst p) (snd p)) (List.product xs ys) s"
proof (induction xs arbitrary: s)
  case Nil
  show ?case by simp
next
  case (Cons x xs)
  have "fold (\<lambda>p. f (fst p) (snd p)) (map (Pair x) ys) s = fold (f x) ys s"
    by (simp add: fold_map comp_def)
  with Cons.IH show ?case by simp
qed

lemma tx5_emit:
  "emit_edges ''tx5'' ''2024-01-05'' [(Some ''E'', Some 1), (Some ''E'', Some 2)]
     [(Some ''F'', Some 1), (Some ''H'', Some 1), (Some ''K'', Some 1)]
     \<lparr>G = \<lparr>nodes = [], edges = []\<rparr>, wallet_balances = [],
        visited_transactions = {''tx5''},
        executed = [(1, SelectTransact ''tx5''), (1, SelectInputs ''tx5''),
                    (1, SelectOutputs ''tx5'')]\<rparr> =
   (\<lparr>G = \<lparr>nodes =
                  [(Some ''E'', \<lparr>node_balance = None, node_label = None\<rparr>),
                   (Some ''F'', \<lparr>node_balance = None, node_label = None\<rparr>),
                   (Some ''H'', \<lparr>node_balance = None, node_label = None\<rparr>),
                   (Some ''K'', \<lparr>node_balance = None, node_label = None\<rparr>)],
                edges =
                  [((Some ''E'', Some ''F''),
                    \<lparr>edge_tx_id = ''tx5'', edge_value = Some 1, edge_date = ''2024-01-05''\<rparr>),
                   ((Some ''E'', Some ''H''),
                    \<lparr>edge_tx_id = ''tx5'', edge_value = Some 1, edge_date = ''2024-01-05''\<rparr>),
                   ((Some ''E'', Some ''K''),
                    \<lparr>edge_tx_id = ''tx5'', edge_value = Some 1, edge_date = ''2024-01-05''\<rparr>)]\<rparr>,
             wallet_balances =
               [(Some ''E'', - 9), (Some ''F'', 2), (Some ''H'', 2), (Some ''K'', 2)],
             visited_transactions = {''tx5''},
             executed =
               [(1, SelectTransact ''tx5''), (1, SelectInputs ''tx5''),
                (1, SelectOutputs ''tx5'')]\<rparr>, None)"
  by (simp add: add_edge_def add_node_def Let_def update_wallet_balance_def balance_of_def
        py_float_def)

lemma tx5_in: "select_inputs ledger ''tx5'' = [(Some ''E'', Some 1), (Some ''E'', Some 2)]"
  by (simp add: select_inputs_def ledger_def)

lemma tx5_out:
  "select_outputs ledger ''tx5'' = [(Some ''F'', Some 1), (Some ''H'', Some 1), (Some ''K'', Some 1)]"
  by (simp add: select_outputs_def ledger_def)

lemma tx5_row: "select_transact ledger ''tx5'' =
    Some \<lparr>tx_hash = ''tx5'', tx_time = ''2024-01-05 00:00:00'',
          input_total = Some 3, output_total = Some 3\<rparr>"
  by (simp add: select_transact_def ledger_def)

lemma ledger_env: "sqlite_error ledger q = False" "tx_date_of ledger = date_only"
  by (simp_all add: ledger_def)

lemma tx5_run:
  "process_transaction (Suc 0) ledger ''tx5'' 1 1 init =
     Some (\<lparr>G = \<lparr>nodes =
                  [(Some ''E'', \<lparr>node_balance = None, node_label = None\<rparr>),
                   (Some ''F'', \<lparr>node_balance = None, node_label = None\<rparr>),
                   (Some ''H'', \<lparr>node_balance = None, node_label = None\<rparr>),
                   (Some ''K'', \<lparr>node_balance = None, node_label = None\<rparr>)],
                edges =
                  [((Some ''E'', Some ''F''),
                    \<lparr>edge_tx_id = ''tx5'', edge_value = Some 1, edge_date = ''2024-01-05''\<rparr>),
                   ((Some ''E'', Some ''H''),
                    \<lparr>edge_tx_id = ''tx5'', edge_value = Some 1, edge_date = ''2024-01-05''\<rparr>),
                   ((Some ''E'', Some ''K''),
                    \<lparr>edge_tx_id = ''tx5'', edge_value = Some 1, edge_date = ''2024-01-05''\<rparr>)]\<rparr>,
             wallet_balances =
               [(Some ''E'', - 9), (Some ''F'', 2), (Some ''H'', 2), (Some ''K'', 2)],
             visited_transactions = {''tx5''},
             executed =
               [(1, SelectTransact ''tx5''), (1, SelectInputs ''tx5''),
                (1, SelectOutputs ''tx5'')]\<rparr>, None)"
  by (simp add: expand_one_def execute_def Let_def init_def tx5_row tx5_in tx5_out ledger_env
        date_only_def tx5_emit del: emit_edges.simps)

text \<open>
  C1, as the code has it. For a transaction whose input and output records hold no
  \<^verbatim>\<open>NULL\<close> (every transaction of a ledger without \<^verbatim>\<open>NULL\<close>, by
  \<open>present_rows\<close>), the emission never raises and is one pass of the loop body for each element
  of the cross product, in order: \<open>m\<close> times \<open>n\<close> calls of \<^verbatim>\<open>add_edge\<close>, debits and
  credits. The graph being simple, the edges written are those of the distinct pairs
  (sender, receiver), and the other edges are untouched. When the output addresses are
  pairwise distinct, the edge of each pair carries the transaction, its date and that
  output's value. When the input addresses are pairwise distinct as well and no pair was
  an edge before, the graph has \<open>m\<close> times \<open>n\<close> edges more. Every address is debited
  \<open>n\<close> times the values of its input records and credited \<open>m\<close> times the values of
  its output records.
\<close>

theorem cross_product_emission:
  "\<exists>st'. emit_edges h dt (present ins) (present outs) st = (st', None) \<and>
     st' = fold (\<lambda>p. emit_pair h dt (fst p) (snd p)) (List.product ins outs) st \<and>
     length (List.product ins outs) = length ins * length outs \<and>
     fst ` set (edges (G st')) = fst ` set (edges (G st)) \<union> pairs ins outs \<and>
     (\<forall>k. k \<notin> pairs ins outs \<longrightarrow> map_of (edges (G st')) k = map_of (edges (G st)) k) \<and>
     (distinct (map fst outs) \<longrightarrow>
        (\<forall>i \<in> set ins. \<forall>out \<in> set outs.
           map_of (edges (G st')) (Some (fst i), Some (fst out)) =
             Some \<lparr>edge_tx_id = h, edge_value = Some (snd out), edge_date = dt\<rparr>)) \<and>
     (distinct (map fst ins) \<and> distinct (map fst outs) \<and>
      distinct (map fst (edges (G st))) \<and> fst ` set (edges (G st)) \<inter> pairs ins outs = {} \<longrightarrow>
        length (edges (G st')) = length (edges (G st)) + length ins * length outs) \<and>
     (\<forall>a. balance_of st' (Some a) =
        balance_of st (Some a) - real (length outs) * total_of a ins
          + real (length ins) * total_of a outs)"
proof -
  let ?st' = "fold (\<lambda>i. fold (emit_pair h dt i) outs) ins st"
  have 1: "emit_edges h dt (present ins) (present outs) st = (?st', None)"
    by (rule emit_edges_fold)
  have 2: "?st' = fold (\<lambda>p. emit_pair h dt (fst p) (snd p)) (List.product ins outs) st"
    by (rule fold_product)
  have 3: "length (List.product ins outs) = length ins * length outs" by simp
  have 4: "fst ` set (edges (G ?st')) = fst ` set (edges (G st)) \<union> pairs ins outs"
    by (rule outer_keys)
  have 5: "\<forall>k. k \<notin> pairs ins outs \<longrightarrow> map_of (edges (G ?st')) k = map_of (edges (G st)) k"
    using outer_other [of _ ins outs h dt st] by blast
  have 6: "distinct (map fst outs) \<longrightarrow>
        (\<forall>i \<in> set ins. \<forall>out \<in> set outs.
           map_of (edges (G ?st')) (Some (fst i), Some (fst out)) =
             Some \<lparr>edge_tx_id = h, edge_value = Some (snd out), edge_date = dt\<rparr>)"
  proof (intro impI ballI)
    fix i out
    assume a: "distinct (map fst outs)" and b: "out \<in> set outs" and c: "i \<in> set ins"
    from c have "fst i \<in> fst ` set ins" by simp
    from outer_new [OF a b this]
    show "map_of (edges (G ?st')) (Some (fst i), Some (fst out)) =
             Some \<lparr>edge_tx_id = h, edge_value = Some (snd out), edge_date = dt\<rparr>" .
  qed
  have 7: "distinct (map fst ins) \<and> distinct (map fst outs) \<and>
      distinct (map fst (edges (G st))) \<and> fst ` set (edges (G st)) \<inter> pairs ins outs = {} \<longrightarrow>
        length (edges (G ?st')) = length (edges (G st)) + length ins * length outs"
  proof
    assume a: "distinct (map fst ins) \<and> distinct (map fst outs) \<and>
      distinct (map fst (edges (G st))) \<and> fst ` set (edges (G st)) \<inter> pairs ins outs = {}"
    show "length (edges (G ?st')) = length (edges (G st)) + length ins * length outs"
      by (rule outer_length) (use a in blast)+
  qed
  have 8: "\<forall>a. balance_of ?st' (Some a) =
        balance_of st (Some a) - real (length outs) * total_of a ins
          + real (length ins) * total_of a outs"
    using outer_balance [of h dt outs ins st] by blast
  show ?thesis
    by (rule exI [of _ ?st'], intro conjI) (rule 1 2 3 4 5 6 7 8)+
qed

theorem cross_product_emission_witness:
  "present [(''A'', 5)] = [(Some ''A'', Some 5)] \<and>
   present [(''B'', 3), (''C'', 2)] = [(Some ''B'', Some 3), (Some ''C'', Some 2)] \<and>
   (\<exists>st'. emit_edges ''tx1'' ''2024-01-01'' (present [(''A'', 5)])
             (present [(''B'', 3), (''C'', 2)]) init = (st', None) \<and>
      length (edges (G st')) = 2 \<and>
      map_of (edges (G st')) (Some ''A'', Some ''B'') =
        Some \<lparr>edge_tx_id = ''tx1'', edge_value = Some 3, edge_date = ''2024-01-01''\<rparr> \<and>
      map_of (edges (G st')) (Some ''A'', Some ''C'') =
        Some \<lparr>edge_tx_id = ''tx1'', edge_value = Some 2, edge_date = ''2024-01-01''\<rparr> \<and>
      balance_of st' (Some ''A'') = - 10 \<and> balance_of st' (Some ''B'') = 3 \<and>
      balance_of st' (Some ''C'') = 2)"
proof -
  from cross_product_emission [of "''tx1''" "''2024-01-01''" "[(''A'', 5)]"
      "[(''B'', 3), (''C'', 2)]" init]
  obtain st' where all: "emit_edges ''tx1'' ''2024-01-01'' (present [(''A'', 5)])
             (present [(''B'', 3), (''C'', 2)]) init = (st', None) \<and>
     st' = fold (\<lambda>p. emit_pair ''tx1'' ''2024-01-01'' (fst p) (snd p))
             (List.product [(''A'', 5)] [(''B'', 3), (''C'', 2)]) init \<and>
     length (List.product [(''A'', 5::real)] [(''B'', 3::real), (''C'', 2)]) =
       length [(''A'', 5::real)] * length [(''B'', 3::real), (''C'', 2)] \<and>
     fst ` set (edges (G st')) =
       fst ` set (edges (G init)) \<union> pairs [(''A'', 5)] [(''B'', 3), (''C'', 2)] \<and>
     (\<forall>k. k \<notin> pairs [(''A'', 5)] [(''B'', 3), (''C'', 2)] \<longrightarrow>
        map_of (edges (G st')) k = map_of (edges (G init)) k) \<and>
     (distinct (map fst [(''B'', 3::real), (''C'', 2)]) \<longrightarrow>
        (\<forall>i \<in> set [(''A'', 5::real)]. \<forall>out \<in> set [(''B'', 3::real), (''C'', 2)].
           map_of (edges (G st')) (Some (fst i), Some (fst out)) =
             Some \<lparr>edge_tx_id = ''tx1'', edge_value = Some (snd out), edge_date = ''2024-01-01''\<rparr>)) \<and>
     (distinct (map fst [(''A'', 5::real)]) \<and> distinct (map fst [(''B'', 3::real), (''C'', 2)]) \<and>
      distinct (map fst (edges (G init))) \<and>
      fst ` set (edges (G init)) \<inter> pairs [(''A'', 5)] [(''B'', 3), (''C'', 2)] = {} \<longrightarrow>
        length (edges (G st')) = length (edges (G init)) + length [(''A'', 5::real)] *
          length [(''B'', 3::real), (''C'', 2)]) \<and>
     (\<forall>a. balance_of st' (Some a) =
        balance_of init (Some a) - real (length [(''B'', 3::real), (''C'', 2)]) * total_of a [(''A'', 5)]
          + real (length [(''A'', 5::real)]) * total_of a [(''B'', 3), (''C'', 2)])" ..
  note e = all [THEN conjunct1]
  note n = all [THEN conjunct2, THEN conjunct2, THEN conjunct2, THEN conjunct2, THEN conjunct2,
      THEN conjunct1]
  note l = all [THEN conjunct2, THEN conjunct2, THEN conjunct2, THEN conjunct2, THEN conjunct2,
      THEN conjunct2, THEN conjunct1]
  note b = all [THEN conjunct2, THEN conjunct2, THEN conjunct2, THEN conjunct2, THEN conjunct2,
      THEN conjunct2, THEN conjunct2]
  from n have n': "map_of (edges (G st')) (Some ''A'', Some ''B'') =
        Some \<lparr>edge_tx_id = ''tx1'', edge_value = Some 3, edge_date = ''2024-01-01''\<rparr>"
    "map_of (edges (G st')) (Some ''A'', Some ''C'') =
        Some \<lparr>edge_tx_id = ''tx1'', edge_value = Some 2, edge_date = ''2024-01-01''\<rparr>"
    by simp_all
  from l have l': "length (edges (G st')) = 2" by (simp add: init_def)
  from b have b': "balance_of st' (Some ''A'') = - 10" "balance_of st' (Some ''B'') = 3"
      "balance_of st' (Some ''C'') = 2"
    by (simp_all add: balance_of_def init_def)
  have p: "present [(''A'', 5)] = [(Some ''A'', Some 5)]"
    "present [(''B'', 3), (''C'', 2)] = [(Some ''B'', Some 3), (Some ''C'', Some 2)]"
    by (simp_all add: present_def)
  from e n' l' b' p show ?thesis by (simp del: emit_edges.simps)
qed

text \<open>
  C1, as the specification has it, fails on \<^verbatim>\<open>tx5\<close> of the first example ledger: two
  input records and three output records leave three edges, because both inputs come
  from the same address.
\<close>

theorem cross_product_counterexample:
  "length (select_inputs ledger ''tx5'') = 2 \<and> length (select_outputs ledger ''tx5'') = 3 \<and>
   map_option (length \<circ> edges \<circ> G \<circ> fst)
     (process_transaction (Suc 0) ledger ''tx5'' 1 1 init) = Some 3"
proof (intro conjI)
  show "length (select_inputs ledger ''tx5'') = 2" by (simp add: select_inputs_def ledger_def)
  show "length (select_outputs ledger ''tx5'') = 3" by (simp add: select_outputs_def ledger_def)
  show "map_option (length \<circ> edges \<circ> G \<circ> fst)
     (process_transaction (Suc 0) ledger ''tx5'' 1 1 init) = Some 3"
    by (simp add: tx5_run del: process_transaction.simps)
qed

section \<open>Termination and the visited set\<close>

text \<open>
  C2. The expansion returns on every ledger, cyclic or not: a call-stack bound larger
  than the number of rows of \<^verbatim>\<open>INPUTS\<close> plus one is always enough, and a larger bound
  gives the same result. After a call the hash is in the visited set, so a second call
  on it returns the state unchanged, without exception: no edge, no balance update, no
  statement. No record is fetched twice: if that held before the call, it holds after.
\<close>

theorem expansion_terminates_once:
  "(Suc (length (INPUTS db)) < n \<longrightarrow>
      (\<exists>st' e. process_transaction n db h d m st = Some (st', e))) \<and>
   (process_transaction n db h d m st = Some (st', e) \<longrightarrow>
      (\<forall>k\<ge>n. process_transaction k db h d m st = Some (st', e)) \<and>
      h \<in> visited_transactions st' \<and>
      process_transaction (Suc k') db h d' m' st' = Some (st', None) \<and>
      (once st \<longrightarrow> once st'))"
proof (intro conjI impI)
  assume "Suc (length (INPUTS db)) < n"
  from enough_fuel [OF this, of h d m st]
  show "\<exists>st' e. process_transaction n db h d m st = Some (st', e)" by auto
next
  assume run: "process_transaction n db h d m st = Some (st', e)"
  show "\<forall>k\<ge>n. process_transaction k db h d m st = Some (st', e)"
    using more_fuel [OF run] by blast
  from marks_visited [OF run] show "h \<in> visited_transactions st'" .
  then show "process_transaction (Suc k') db h d' m' st' = Some (st', None)" by simp
  assume "once st"
  with once_preserved [OF run] show "once st'" by simp
qed

theorem expansion_terminates_once_witness:
  "Suc (length (INPUTS cyclic_ledger)) < 4 \<and>
   successor cyclic_ledger ''t1'' ''t2'' \<and> successor cyclic_ledger ''t2'' ''t1'' \<and>
   once init \<and>
   (\<exists>st'. process_transaction 4 cyclic_ledger ''t1'' 1 0 init = Some (st', None) \<and>
      process_transaction 7 cyclic_ledger ''t1'' 1 0 init = Some (st', None) \<and>
      expansions st' = [''t1'', ''t2''] \<and>
      ''t1'' \<in> visited_transactions st' \<and>
      process_transaction (Suc 0) cyclic_ledger ''t1'' 1 0 st' = Some (st', None) \<and>
      once st')"
proof -
  have 1: "Suc (length (INPUTS cyclic_ledger)) < 4" by (simp add: cyclic_ledger_def)
  have 4: "(4::nat) = Suc (Suc (Suc (Suc 0)))" by simp
  note run = cyclic_run [folded 4]
  note t = expansion_terminates_once
    [of cyclic_ledger 4 "''t1''" 1 0 init _ None 0 1 0, THEN conjunct2, rule_format, OF run]
  from t have 7: "process_transaction 7 cyclic_ledger ''t1'' 1 0 init =
      process_transaction 4 cyclic_ledger ''t1'' 1 0 init"
    using run by (simp del: process_transaction.simps)
  have "expansions (fst (the (process_transaction 4 cyclic_ledger ''t1'' 1 0 init))) = [''t1'', ''t2'']"
    by (simp add: run expansions_def del: process_transaction.simps)
  with 1 7 t successor_cycle once_init run show ?thesis
    by (simp del: process_transaction.simps)
qed

section \<open>The graph is a simple directed graph\<close>

text \<open>
  C3, as the code has it. The graph is an \<^verbatim>\<open>nx.DiGraph\<close>: it holds at most one edge
  for each ordered pair of addresses, after every expansion and every build. Adding an
  edge for a pair of addresses always succeeds, leaves the other pairs alone and gives
  the pair the new \<^verbatim>\<open>tx_id\<close>, \<^verbatim>\<open>value\<close> and \<^verbatim>\<open>date\<close>; when the pair was an edge
  already, the number of edges stays the same, so only the last emission for a pair
  survives.
\<close>

theorem simple_digraph:
  "(distinct (map fst (edges (G st))) \<and> process_transaction n db h d m st = Some (st', e) \<longrightarrow>
      distinct (map fst (edges (G st')))) \<and>
   (distinct (map fst (edges (G st))) \<and> build_graph n db t m st = Some (st', e) \<longrightarrow>
      distinct (map fst (edges (G st')))) \<and>
   (\<exists>g'. add_edge (Some s) (Some r) a g = (g', None) \<and>
      map_of (edges g') (Some s, Some r) = Some a \<and>
      (\<forall>k. k \<noteq> (Some s, Some r) \<longrightarrow> map_of (edges g') k = map_of (edges g) k) \<and>
      ((Some s, Some r) \<in> fst ` set (edges g) \<longrightarrow> length (edges g') = length (edges g)))"
proof (intro conjI)
  from simple_kept [of db h d st st' _ n m e t]
  show "distinct (map fst (edges (G st))) \<and> process_transaction n db h d m st = Some (st', e) \<longrightarrow>
      distinct (map fst (edges (G st')))"
    and "distinct (map fst (edges (G st))) \<and> build_graph n db t m st = Some (st', e) \<longrightarrow>
      distinct (map fst (edges (G st')))" by blast+
next
  let ?g = "add_node (Some r) (add_node (Some s) g)
        \<lparr>edges := AList.update (Some s, Some r) a (edges g)\<rparr>"
  have "add_edge (Some s) (Some r) a g = (?g, None)" by (rule add_edge_present)
  moreover have "map_of (edges ?g) (Some s, Some r) = Some a"
    by (simp add: update_conv')
  moreover have "\<forall>k. k \<noteq> (Some s, Some r) \<longrightarrow> map_of (edges ?g) k = map_of (edges g) k"
    by (simp add: update_conv')
  moreover have "(Some s, Some r) \<in> fst ` set (edges g) \<longrightarrow> length (edges ?g) = length (edges g)"
    using length_update [of "(Some s, Some r)" a "edges g"] by auto
  ultimately show "\<exists>g'. add_edge (Some s) (Some r) a g = (g', None) \<and>
      map_of (edges g') (Some s, Some r) = Some a \<and>
      (\<forall>k. k \<noteq> (Some s, Some r) \<longrightarrow> map_of (edges g') k = map_of (edges g) k) \<and>
      ((Some s, Some r) \<in> fst ` set (edges g) \<longrightarrow> length (edges g') = length (edges g))"
    by blast
qed

theorem simple_digraph_witness:
  "distinct (map fst (edges (G init))) \<and>
   (\<exists>st'. build_graph (Suc 0) ledger ''A'' 1 init = Some (st', None) \<and>
      expansions st' = [''tx1'', ''tx3''] \<and>
      map fst (edges (G st')) = [(Some ''A'', Some ''B''), (Some ''A'', Some ''C'')] \<and>
      distinct (map fst (edges (G st')))) \<and>
   (\<exists>g'. add_edge (Some ''A'') (Some ''B'')
            \<lparr>edge_tx_id = ''tx3'', edge_value = Some 4, edge_date = ''2024-01-03''\<rparr>
            \<lparr>nodes = [], edges = [((Some ''A'', Some ''B''),
               \<lparr>edge_tx_id = ''tx1'', edge_value = Some 3, edge_date = ''2024-01-01''\<rparr>)]\<rparr>
          = (g', None) \<and>
      length (edges g') = 1 \<and>
      map_of (edges g') (Some ''A'', Some ''B'') =
        Some \<lparr>edge_tx_id = ''tx3'', edge_value = Some 4, edge_date = ''2024-01-03''\<rparr>)"
proof -
  have 0: "distinct (map fst (edges (G init)))" by (simp add: init_def)
  note t = simple_digraph [of init "Suc 0" ledger "''tx1''" 1 1 _ None "''A''" "''A''" "''B''"
      "\<lparr>edge_tx_id = ''tx3'', edge_value = Some 4, edge_date = ''2024-01-03''\<rparr>"
      "\<lparr>nodes = [], edges = [((Some ''A'', Some ''B''),
               \<lparr>edge_tx_id = ''tx1'', edge_value = Some 3, edge_date = ''2024-01-01''\<rparr>)]\<rparr>"]
  from t 0 build_A
  have 1: "distinct (map fst (edges (G (fst (the (build_graph (Suc 0) ledger ''A'' 1 init))))))"
    by (simp del: process_transaction.simps)
  from t [THEN conjunct2, THEN conjunct2] obtain g' where
    "add_edge (Some ''A'') (Some ''B'')
            \<lparr>edge_tx_id = ''tx3'', edge_value = Some 4, edge_date = ''2024-01-03''\<rparr>
            \<lparr>nodes = [], edges = [((Some ''A'', Some ''B''),
               \<lparr>edge_tx_id = ''tx1'', edge_value = Some 3, edge_date = ''2024-01-01''\<rparr>)]\<rparr>
          = (g', None)"
    and "map_of (edges g') (Some ''A'', Some ''B'') =
        Some \<lparr>edge_tx_id = ''tx3'', edge_value = Some 4, edge_date = ''2024-01-03''\<rparr>"
    and "length (edges g') = 1"
    by auto
  then have 2: "\<exists>g'. add_edge (Some ''A'') (Some ''B'')
            \<lparr>edge_tx_id = ''tx3'', edge_value = Some 4, edge_date = ''2024-01-03''\<rparr>
            \<lparr>nodes = [], edges = [((Some ''A'', Some ''B''),
               \<lparr>edge_tx_id = ''tx1'', edge_value = Some 3, edge_date = ''2024-01-01''\<rparr>)]\<rparr>
          = (g', None) \<and>
      length (edges g') = 1 \<and>
      map_of (edges g') (Some ''A'', Some ''B'') =
        Some \<lparr>edge_tx_id = ''tx3'', edge_value = Some 4, edge_date = ''2024-01-03''\<rparr>"
    by blast
  from 0 1 have "distinct (map fst (edges (G init))) \<and>
   (\<exists>st'. build_graph (Suc 0) ledger ''A'' 1 init = Some (st', None) \<and>
      expansions st' = [''tx1'', ''tx3''] \<and>
      map fst (edges (G st')) = [(Some ''A'', Some ''B''), (Some ''A'', Some ''C'')] \<and>
      distinct (map fst (edges (G st'))))"
    by (simp add: build_A expansions_def del: process_transaction.simps)
  with 2 show ?thesis by blast
qed

text \<open>
  C3, as the specification has it, fails on the first example ledger: \<^verbatim>\<open>tx1\<close> and
  \<^verbatim>\<open>tx3\<close> both have an input from \<^verbatim>\<open>A\<close> and an output to \<^verbatim>\<open>B\<close>, both are
  expanded by \<^verbatim>\<open>build_graph('A', 1)\<close>, and the finished graph has one edge from
  \<^verbatim>\<open>A\<close> to \<^verbatim>\<open>B\<close>, that of \<^verbatim>\<open>tx3\<close>.
\<close>

theorem parallel_edges_counterexample:
  "(Some ''A'', Some 5) \<in> set (select_inputs ledger ''tx1'') \<and>
   (Some ''B'', Some 3) \<in> set (select_outputs ledger ''tx1'') \<and>
   (Some ''A'', Some 7) \<in> set (select_inputs ledger ''tx3'') \<and>
   (Some ''B'', Some 4) \<in> set (select_outputs ledger ''tx3'') \<and>
   map_option (expansions \<circ> fst) (build_graph (Suc 0) ledger ''A'' 1 init) =
     Some [''tx1'', ''tx3''] \<and>
   map_option (edges \<circ> G \<circ> fst) (build_graph (Suc 0) ledger ''A'' 1 init) =
     Some [((Some ''A'', Some ''B''),
            \<lparr>edge_tx_id = ''tx3'', edge_value = Some 4, edge_date = ''2024-01-03''\<rparr>),
           ((Some ''A'', Some ''C''),
            \<lparr>edge_tx_id = ''tx1'', edge_value = Some 2, edge_date = ''2024-01-01''\<rparr>)]"
proof (intro conjI)
  show "(Some ''A'', Some 5) \<in> set (select_inputs ledger ''tx1'')"
    and "(Some ''A'', Some 7) \<in> set (select_inputs ledger ''tx3'')"
    by (simp_all add: select_inputs_def ledger_def)
  show "(Some ''B'', Some 3) \<in> set (select_outputs ledger ''tx1'')"
    and "(Some ''B'', Some 4) \<in> set (select_outputs ledger ''tx3'')"
    by (simp_all add: select_outputs_def ledger_def)
  show "map_option (expansions \<circ> fst) (build_graph (Suc 0) ledger ''A'' 1 init) =
     Some [''tx1'', ''tx3'']"
    by (simp add: build_A expansions_def del: process_transaction.simps)
  show "map_option (edges \<circ> G \<circ> fst) (build_graph (Suc 0) ledger ''A'' 1 init) =
     Some [((Some ''A'', Some ''B''),
            \<lparr>edge_tx_id = ''tx3'', edge_value = Some 4, edge_date = ''2024-01-03''\<rparr>),
           ((Some ''A'', Some ''C''),
            \<lparr>edge_tx_id = ''tx1'', edge_value = Some 2, edge_date = ''2024-01-01''\<rparr>)]"
    by (simp add: build_A del: process_transaction.simps)
qed

section \<open>The depth bound\<close>

text \<open>
  C4. With \<^verbatim>\<open>max_depth = m > 0\<close>, a call at depth at most \<open>m\<close> executes statements
  at depths up to \<open>m\<close> only. With \<^verbatim>\<open>max_depth = 1\<close> and a seed at depth 1, the seed is
  the only transaction added to the visited set and every statement is issued at depth
  1. With \<^verbatim>\<open>max_depth = 0\<close>, a call that returns without exception leaves the visited
  set closed: every successor of a transaction visited during the call is visited, and
  from an empty visited set everything reachable from the seed is visited.
\<close>

theorem depth_bounding:
  "(0 < m \<and> d \<le> m \<and> process_transaction n db h d m st = Some (st', e) \<longrightarrow>
      in_depth d m st st') \<and>
   (h \<notin> visited_transactions st \<and> process_transaction n db h 1 1 st = Some (st', e) \<longrightarrow>
      visited_transactions st' = insert h (visited_transactions st) \<and> in_depth 1 1 st st') \<and>
   (process_transaction n db h d 0 st = Some (st', None) \<longrightarrow>
      h \<in> visited_transactions st' \<and> closed_under db st st' \<and>
      (visited_transactions st = {} \<longrightarrow>
         (\<forall>y. (successor db)\<^sup>*\<^sup>* h y \<longrightarrow> y \<in> visited_transactions st')))"
proof (intro conjI impI allI)
  assume "0 < m \<and> d \<le> m \<and> process_transaction n db h d m st = Some (st', e)"
  then show "in_depth d m st st'" by (auto intro: depth_bounded)
next
  assume a: "h \<notin> visited_transactions st \<and> process_transaction n db h 1 1 st = Some (st', e)"
  then obtain k where n: "n = Suc k" by (cases n) auto
  from a n have "st' = fst (expand_one db h 1 st)"
    by (auto split: prod.splits fetched.splits)
  then show "visited_transactions st' = insert h (visited_transactions st)"
    using expand_one_frame(1) [of db h 1 st] by (cases "expand_one db h 1 st") simp
  from a show "in_depth 1 1 st st'" by (auto intro: depth_bounded)
next
  assume run: "process_transaction n db h d 0 st = Some (st', None)"
  from marks_visited [OF run] show "h \<in> visited_transactions st'" .
  from unbounded_closed [OF run] show "closed_under db st st'" .
  fix y assume "visited_transactions st = {}" "(successor db)\<^sup>*\<^sup>* h y"
  with run show "y \<in> visited_transactions st'" by (rule reachable_visited)
qed

theorem depth_bounding_witness:
  "successor ledger ''tx1'' ''tx2'' \<and>
   (\<exists>st'. process_transaction 1 ledger ''tx1'' 1 1 init = Some (st', None) \<and>
      visited_transactions st' = {''tx1''} \<and> in_depth 1 1 init st' \<and>
      (2, SelectTransact ''tx2'') \<notin> set (executed st')) \<and>
   (\<exists>st'. process_transaction 3 ledger ''tx1'' 1 0 init = Some (st', None) \<and>
      closed_under ledger init st' \<and> ''tx2'' \<in> visited_transactions st' \<and>
      (2, SelectTransact ''tx2'') \<in> set (executed st'))"
proof -
  have 1: "(1::nat) = Suc 0" and 3: "(3::nat) = Suc (Suc (Suc 0))" by simp_all
  note run1 = scenario_tx1 [folded 1]
  note run0 = scenario_unbounded [folded 3]
  have v: "visited_transactions init = {}" "''tx1'' \<notin> visited_transactions init"
    by (simp_all add: init_def)
  note b = depth_bounding [of 1 1 1 ledger "''tx1''" init _ None, THEN conjunct2, THEN conjunct1,
      rule_format, OF conjI [OF v(2) run1]]
  note u = depth_bounding [of 0 1 3 ledger "''tx1''" init _ None, THEN conjunct2, THEN conjunct2,
      rule_format, OF run0]
  note r = u [THEN conjunct2, THEN conjunct2, rule_format, OF v(1)]
  have "''tx2'' \<in> visited_transactions (fst (the (process_transaction 3 ledger ''tx1'' 1 0 init)))"
    using r [of "''tx2''"] successor_tx1_tx2 by (auto simp: run0 simp del: process_transaction.simps)
  with b u successor_tx1_tx2 run1 run0 show ?thesis
    by (simp add: init_def del: process_transaction.simps)
qed

section \<open>An exhausted depth budget\<close>

text \<open>
  C5, as the code has it. A transaction expanded at a depth that is not below a positive
  \<^verbatim>\<open>max_depth\<close> is fetched and its edges are emitted, but lines 104-117 are skipped as
  a whole: no successor lookup is executed, and no other transaction is visited. In the
  end-to-end scenario, \<^verbatim>\<open>tx1\<close> at depth 1 with \<^verbatim>\<open>max_depth = 1\<close> gives the edges
  A to B (3) and A to C (2) and the balances A = -10, B = 3, C = 2, after three statements.
\<close>

theorem exhausted_budget_no_lookup:
  "(0 < m \<and> m \<le> d \<and> h \<notin> visited_transactions st \<longrightarrow>
      (\<exists>st' e. process_transaction (Suc n) db h d m st = Some (st', e) \<and>
         visited_transactions st' = insert h (visited_transactions st) \<and>
         (\<forall>x \<in> set (executed st'). x \<in> set (executed st) \<or>
            x \<in> {(d, SelectTransact h), (d, SelectInputs h), (d, SelectOutputs h)}))) \<and>
   process_transaction (Suc 0) ledger ''tx1'' 1 1 init =
     Some (\<lparr>G = \<lparr>nodes =
                  [(Some ''A'', \<lparr>node_balance = None, node_label = None\<rparr>),
                   (Some ''B'', \<lparr>node_balance = None, node_label = None\<rparr>),
                   (Some ''C'', \<lparr>node_balance = None, node_label = None\<rparr>)],
                edges =
                  [((Some ''A'', Some ''B''),
                    \<lparr>edge_tx_id = ''tx1'', edge_value = Some 3, edge_date = ''2024-01-01''\<rparr>),
                   ((Some ''A'', Some ''C''),
                    \<lparr>edge_tx_id = ''tx1'', edge_value = Some 2, edge_date = ''2024-01-01''\<rparr>)]\<rparr>,
             wallet_balances = [(Some ''A'', - 10), (Some ''B'', 3), (Some ''C'', 2)],
             visited_transactions = {''tx1''},
             executed =
               [(1, SelectTransact ''tx1''), (1, SelectInputs ''tx1''),
                (1, SelectOutputs ''tx1'')]\<rparr>, None)"
proof (intro conjI impI)
  assume a: "0 < m \<and> m \<le> d \<and> h \<notin> visited_transactions st"
  obtain st5 f where ex: "expand_one db h d st = (st5, f)"
    by (cases "expand_one db h d st")
  from a have "h \<notin> visited_transactions st" "\<not> (m = 0 \<or> d < m)" by simp_all
  from budget_exhausted [OF this, of n db] ex
  have "process_transaction (Suc n) db h d m st =
          Some (st5, case f of Stop e \<Rightarrow> e | Continue outs \<Rightarrow> None)" by simp
  moreover from expand_one_frame [OF ex]
  have "visited_transactions st5 = insert h (visited_transactions st)"
    and "\<forall>x \<in> set (executed st5). x \<in> set (executed st) \<or>
              x \<in> {(d, SelectTransact h), (d, SelectInputs h), (d, SelectOutputs h)}"
    by auto
  ultimately show "\<exists>st' e. process_transaction (Suc n) db h d m st = Some (st', e) \<and>
         visited_transactions st' = insert h (visited_transactions st) \<and>
         (\<forall>x \<in> set (executed st'). x \<in> set (executed st) \<or>
            x \<in> {(d, SelectTransact h), (d, SelectInputs h), (d, SelectOutputs h)})"
    by blast
next
  show "process_transaction (Suc 0) ledger ''tx1'' 1 1 init =
     Some (\<lparr>G = \<lparr>nodes =
                  [(Some ''A'', \<lparr>node_balance = None, node_label = None\<rparr>),
                   (Some ''B'', \<lparr>node_balance = None, node_label = None\<rparr>),
                   (Some ''C'', \<lparr>node_balance = None, node_label = None\<rparr>)],
                edges =
                  [((Some ''A'', Some ''B''),
                    \<lparr>edge_tx_id = ''tx1'', edge_value = Some 3, edge_date = ''2024-01-01''\<rparr>),
                   ((Some ''A'', Some ''C''),
                    \<lparr>edge_tx_id = ''tx1'', edge_value = Some 2, edge_date = ''2024-01-01''\<rparr>)]\<rparr>,
             wallet_balances = [(Some ''A'', - 10), (Some ''B'', 3), (Some ''C'', 2)],
             visited_transactions = {''tx1''},
             executed =
               [(1, SelectTransact ''tx1''), (1, SelectInputs ''tx1''),
                (1, SelectOutputs ''tx1'')]\<rparr>, None)"
    by (rule scenario_tx1)
qed

theorem exhausted_budget_no_lookup_witness:
  "(0::int) < 1 \<and> (1::int) \<le> 1 \<and> ''tx1'' \<notin> visited_transactions init \<and>
   select_spending ledger (Some ''B'') = [''tx2''] \<and>
   (\<exists>st'. process_transaction (Suc 0) ledger ''tx1'' 1 1 init = Some (st', None) \<and>
      visited_transactions st' = {''tx1''} \<and>
      executed st' = [(1, SelectTransact ''tx1''), (1, SelectInputs ''tx1''),
                      (1, SelectOutputs ''tx1'')] \<and>
      map fst (edges (G st')) = [(Some ''A'', Some ''B''), (Some ''A'', Some ''C'')] \<and>
      wallet_balances st' = [(Some ''A'', - 10), (Some ''B'', 3), (Some ''C'', 2)])"
proof -
  have h: "(0::int) < 1 \<and> (1::int) \<le> 1 \<and> ''tx1'' \<notin> visited_transactions init"
    by (simp add: init_def)
  have s: "select_spending ledger (Some ''B'') = [''tx2'']"
    by (simp add: select_spending_def ledger_def)
  from exhausted_budget_no_lookup [of 1 1 "''tx1''" init 0 ledger, THEN conjunct1, rule_format, OF h]
    exhausted_budget_no_lookup [of 1 1 "''tx1''" init 0 ledger, THEN conjunct2] h s
  show ?thesis by (simp del: process_transaction.simps)
qed

text \<open>
  C5, as the specification has it, fails in the scenario: the ledger holds a transaction
  that spends the output to \<^verbatim>\<open>B\<close>, and the lookup that would find it is not among
  the statements executed.
\<close>

theorem lookup_skipped_counterexample:
  "select_spending ledger (Some ''B'') = [''tx2''] \<and>
   map_option (executed \<circ> fst) (process_transaction (Suc 0) ledger ''tx1'' 1 1 init) =
     Some [(1, SelectTransact ''tx1''), (1, SelectInputs ''tx1''), (1, SelectOutputs ''tx1'')]"
proof (intro conjI)
  show "select_spending ledger (Some ''B'') = [''tx2'']"
    by (simp add: select_spending_def ledger_def)
  show "map_option (executed \<circ> fst) (process_transaction (Suc 0) ledger ''tx1'' 1 1 init) =
     Some [(1, SelectTransact ''tx1''), (1, SelectInputs ''tx1''), (1, SelectOutputs ''tx1'')]"
    by (simp add: scenario_tx1 del: process_transaction.simps)
qed

section \<open>The state outlives a build\<close>

text \<open>
  C6, as the code has it. The graph, the balances and the visited set are created empty
  by the constructor and are never reset: a call of \<^verbatim>\<open>_process_transaction\<close> or of
  \<^verbatim>\<open>build_graph\<close> removes nothing from the visited set, the edges, the nodes or the
  balance ledger that it found, and a transaction visited before is not expanded again.
\<close>

theorem state_accumulates:
  "fields init = (\<lparr>nodes = [], edges = []\<rparr>, [], {}) \<and>
   (process_transaction n db h d m st = Some (st', e) \<longrightarrow> kept st st') \<and>
   (build_graph n db t m st = Some (st', e) \<longrightarrow> kept st st') \<and>
   (h \<in> visited_transactions st \<longrightarrow>
      process_transaction (Suc n) db h d m st = Some (st, None))"
  using kept_steps [of db h d st st' _ n m e t] by (simp add: fields_def init_def)

theorem state_accumulates_witness:
  "build_graph (Suc 0) ledger ''D'' 1 init = Some (after_D, None) \<and>
   build_graph (Suc 0) ledger ''C'' 1 after_D = Some (after_D_C, None) \<and>
   kept after_D after_D_C \<and>
   ''tx2'' \<in> visited_transactions after_D_C \<and>
   process_transaction (Suc 0) ledger ''tx2'' 1 1 after_D_C = Some (after_D_C, None)"
proof -
  have v: "''tx2'' \<in> visited_transactions after_D_C" by (simp add: after_D_C_def)
  from state_accumulates [of "Suc 0" ledger "''tx1''" 1 1 after_D after_D_C None "''C''"] build_D_C
  have 1: "kept after_D after_D_C" by (simp del: process_transaction.simps)
  from state_accumulates [of 0 ledger "''tx2''" 1 1 after_D_C after_D_C None "''C''"] v
  have 2: "process_transaction (Suc 0) ledger ''tx2'' 1 1 after_D_C = Some (after_D_C, None)"
    by (simp del: process_transaction.simps)
  from 1 2 v build_D build_D_C show ?thesis by (simp del: process_transaction.simps)
qed

text \<open>
  C6, as the specification has it, fails on the first example ledger: the build for
  \<^verbatim>\<open>C\<close> on an analyzer that has built for \<^verbatim>\<open>D\<close> gives other balances, edges
  and visited transactions than the same build on a fresh analyzer.
\<close>

theorem rebuild_counterexample:
  "build_graph (Suc 0) ledger ''D'' 1 init = Some (after_D, None) \<and>
   map_option (wallet_balances \<circ> fst) (build_graph (Suc 0) ledger ''C'' 1 after_D) =
     Some [(Some ''B'', 0), (Some ''D'', 3), (Some ''A'', - 10), (Some ''C'', 2)] \<and>
   map_option (wallet_balances \<circ> fst) (build_graph (Suc 0) ledger ''C'' 1 init) =
     Some [(Some ''A'', - 10), (Some ''B'', 3), (Some ''C'', 2)] \<and>
   map_option (fields \<circ> fst) (build_graph (Suc 0) ledger ''C'' 1 after_D) \<noteq>
   map_option (fields \<circ> fst) (build_graph (Suc 0) ledger ''C'' 1 init)"
  by (simp add: build_D build_D_C build_C fields_def after_D_C_def
        del: process_transaction.simps)

section \<open>Failures\<close>

text \<open>
  C7, as the code has it. A hash with no record is skipped silently: the call marks it
  visited, executes one statement and returns. Whatever statements raise
  \<^verbatim>\<open>sqlite3.Error\<close> and whatever timestamps fail to parse, no exception leaves
  \<^verbatim>\<open>_process_transaction\<close> on a ledger without \<^verbatim>\<open>NULL\<close> recipients and values: every
  transaction of a list of siblings is then visited, and \<^verbatim>\<open>build_graph\<close> returns
  without exception.
\<close>

theorem failures_localized:
  "(h \<notin> visited_transactions st \<and> \<not> sqlite_error db (SelectTransact h) \<and>
      select_transact db h = None \<longrightarrow>
      process_transaction (Suc n) db h d m st =
        Some (fetching h d [SelectTransact h] st, None)) \<and>
   (no_nulls db \<and> process_transaction n db h d m st = Some (st', e) \<longrightarrow> e = None) \<and>
   (no_nulls db \<and> process_each n db xs d m st = Some (st', e) \<longrightarrow>
      e = None \<and> set xs \<subseteq> visited_transactions st') \<and>
   (no_nulls db \<and> None \<notin> fst ` set (nodes (G st)) \<and>
      build_graph n db t m st = Some (st', e) \<longrightarrow> e = None)"
proof (intro conjI impI)
  assume "h \<notin> visited_transactions st \<and> \<not> sqlite_error db (SelectTransact h) \<and>
      select_transact db h = None"
  then show "process_transaction (Suc n) db h d m st =
        Some (fetching h d [SelectTransact h] st, None)"
    by (intro missing_record) simp_all
next
  assume "no_nulls db \<and> process_transaction n db h d m st = Some (st', e)"
  then show "e = None" by (auto intro: no_raise)
next
  assume a: "no_nulls db \<and> process_each n db xs d m st = Some (st', e)"
  then show e: "e = None" by (auto intro: each_no_raise)
  from a e have "process_each n db xs d m st = Some (st', None)" by simp
  then show "set xs \<subseteq> visited_transactions st'" by (rule each_marks)
next
  assume "no_nulls db \<and> None \<notin> fst ` set (nodes (G st)) \<and>
      build_graph n db t m st = Some (st', e)"
  then show "e = None" by (auto intro: build_no_raise)
qed

theorem failures_localized_witness:
  "''tx9'' \<notin> visited_transactions init \<and> \<not> sqlite_error ledger (SelectTransact ''tx9'') \<and>
   select_transact ledger ''tx9'' = None \<and>
   process_transaction (Suc 0) ledger ''tx9'' 1 0 init =
     Some (fetching ''tx9'' 1 [SelectTransact ''tx9''] init, None) \<and>
   no_nulls ledger \<and> None \<notin> fst ` set (nodes (G init)) \<and>
   (\<exists>st'. build_graph (Suc 0) ledger ''A'' 1 init = Some (st', None) \<and>
      {''tx1'', ''tx3''} \<subseteq> visited_transactions st')"
proof -
  have 1: "''tx9'' \<notin> visited_transactions init \<and> \<not> sqlite_error ledger (SelectTransact ''tx9'') \<and>
      select_transact ledger ''tx9'' = None"
    by (simp add: init_def ledger_def select_transact_def)
  have 2: "None \<notin> fst ` set (nodes (G init))" by (simp add: init_def)
  note t = failures_localized [where h = "''tx9''" and st = init and db = ledger and n = 0
      and d = 1 and m = 0]
  from t [THEN conjunct1] 1
  have 3: "process_transaction (Suc 0) ledger ''tx9'' 1 0 init =
     Some (fetching ''tx9'' 1 [SelectTransact ''tx9''] init, None)" by blast
  from 1 2 3 no_nulls_ledger show ?thesis
    by (simp add: build_A del: process_transaction.simps)
qed

text \<open>
  C7, as the specification has it, fails on the ledger with a \<^verbatim>\<open>NULL\<close> recipient: the
  \<^verbatim>\<open>ValueError\<close> of \<^verbatim>\<open>add_edge\<close> leaves \<^verbatim>\<open>build_graph\<close>, the sibling \<^verbatim>\<open>u2\<close>
  is never visited and its edge is missing.
\<close>

theorem null_recipient_counterexample:
  "select_wallet null_ledger ''E'' = [''u1'', ''u2''] \<and>
   select_outputs null_ledger ''u1'' = [(None, Some 1)] \<and>
   map_option snd (build_graph (Suc 0) null_ledger ''E'' 0 init) = Some (Some ValueError) \<and>
   map_option (visited_transactions \<circ> fst) (build_graph (Suc 0) null_ledger ''E'' 0 init) =
     Some {''u1''} \<and>
   map_option (edges \<circ> G \<circ> fst) (build_graph (Suc 0) null_ledger ''E'' 0 init) = Some []"
proof (intro conjI)
  show "select_wallet null_ledger ''E'' = [''u1'', ''u2'']"
    by (simp add: select_wallet_def null_ledger_def)
  show "select_outputs null_ledger ''u1'' = [(None, Some 1)]"
    by (simp add: select_outputs_def null_ledger_def)
qed (simp_all add: build_null del: process_transaction.simps)

section \<open>The entry point\<close>

text \<open>
  C8. \<^verbatim>\<open>main\<close> admits targets of 34 and of 62 characters only, so a seed of 64
  characters, which \<^verbatim>\<open>build_graph\<close> would expand as a transaction hash at depth 1, is
  rejected with \<^verbatim>\<open>ValueError\<close> before \<^verbatim>\<open>build_graph\<close> is called.
\<close>

theorem main_rejects_hash_seed:
  "main n db (replicate 64 (CHR ''a'')) max_depth = Some (Inl ValueError) \<and>
   map_option (executed \<circ> fst) (build_graph (Suc 0) ledger (replicate 64 (CHR ''a'')) 1 init) =
     Some [(1, SelectTransact (replicate 64 (CHR ''a'')))]"
proof (intro conjI)
  show "main n db (replicate 64 (CHR ''a'')) max_depth = Some (Inl ValueError)"
    by (simp add: main_def)
  have "select_transact ledger (replicate 64 (CHR ''a'')) = None"
  proof -
    have "tx_hash r \<noteq> replicate 64 (CHR ''a'')" if "r \<in> set (TRANSACT ledger)" for r
    proof
      assume "tx_hash r = replicate 64 (CHR ''a'')"
      then have "length (tx_hash r) = 64" by simp
      with that show False by (auto simp: ledger_def)
    qed
    then show ?thesis by (auto simp: select_transact_def find_None_iff)
  qed
  moreover have "\<not> sqlite_error ledger q" for q by (simp add: ledger_def)
  ultimately show "map_option (executed \<circ> fst)
      (build_graph (Suc 0) ledger (replicate 64 (CHR ''a'')) 1 init) =
     Some [(1, SelectTransact (replicate 64 (CHR ''a'')))]"
    by (simp add: build_graph_def expand_one_def Let_def execute_def init_def finish_def)
qed

section \<open>The endpoints of an edge\<close>

text \<open>
  C9. Every edge joins two addresses that are not \<^verbatim>\<open>None\<close>; the sender is the
  recipient of an input record, and the receiver and the value are those of an output
  record, of the transaction that the edge names. This holds in the initial state and
  is kept by the emission of one transaction, by \<^verbatim>\<open>_process_transaction\<close> and by
  \<^verbatim>\<open>build_graph\<close>, on every ledger and also when the call ends with an exception.
\<close>

theorem edges_well_formed:
  "graph_ok db init \<and>
   (graph_ok db st \<and> expand_one db h d st = (st', f) \<longrightarrow> graph_ok db st') \<and>
   (graph_ok db st \<and> process_transaction n db h d m st = Some (st', e) \<longrightarrow> graph_ok db st') \<and>
   (graph_ok db st \<and> build_graph n db t m st = Some (st', e) \<longrightarrow> graph_ok db st')"
  using graph_ok_kept [of db h d st st' f n m e t] graph_ok_init [of db] by blast

theorem edges_well_formed_witness:
  "graph_ok null_ledger init \<and>
   out_recipient (hd (OUTPUTS null_ledger)) = None \<and>
   (\<exists>st'. build_graph (Suc 0) null_ledger ''E'' 0 init = Some (st', Some ValueError) \<and>
      graph_ok null_ledger st') \<and>
   (\<exists>st'. build_graph (Suc 0) ledger ''A'' 1 init = Some (st', None) \<and>
      length (edges (G st')) = 2 \<and> graph_ok ledger st')"
proof -
  note n = edges_well_formed [of null_ledger init "''u1''" 1 _ "Stop None" "Suc 0" 0
      "Some ValueError" "''E''"]
  note l = edges_well_formed [of ledger init "''tx1''" 1 _ "Stop None" "Suc 0" 1 None "''A''"]
  from n have 0: "graph_ok null_ledger init" by simp
  from l have 1: "graph_ok ledger init" by simp
  from n build_null 0 have 2: "graph_ok null_ledger (fst (the (build_graph (Suc 0) null_ledger ''E'' 0 init)))"
    by (simp del: process_transaction.simps)
  from l build_A 1 have 3: "graph_ok ledger (fst (the (build_graph (Suc 0) ledger ''A'' 1 init)))"
    by (simp del: process_transaction.simps)
  have 4: "out_recipient (hd (OUTPUTS null_ledger)) = None" by (simp add: null_ledger_def)
  from 0 2 3 4 show ?thesis
    by (simp add: build_null build_A del: process_transaction.simps)
qed

section \<open>A transaction without output records\<close>

text \<open>
  C10. A transaction that has no output record (whatever its input records) changes
  nothing but the visited set: the call returns without exception, the graph and the
  balances are as before, so no sender is debited, and the only statements executed are
  the three that fetch the record, the inputs and the outputs; no successor lookup is
  made.
\<close>

theorem no_outputs_only_marks_visited:
  assumes "h \<notin> visited_transactions st" and "select_outputs db h = []"
  shows "\<exists>st'. process_transaction (Suc n) db h d m st = Some (st', None) \<and>
           G st' = G st \<and> wallet_balances st' = wallet_balances st \<and>
           visited_transactions st' = insert h (visited_transactions st) \<and>
           (\<forall>x \<in> set (executed st'). x \<in> set (executed st) \<or>
              x \<in> {(d, SelectTransact h), (d, SelectInputs h), (d, SelectOutputs h)})"
  using assms
  by (auto simp: expand_one_def Let_def emit_edges_no_outputs
           dest!: select_transact_hash split: option.splits)

theorem no_outputs_only_marks_visited_witness:
  "''tx4'' \<notin> visited_transactions init \<and> select_outputs ledger ''tx4'' = [] \<and>
   length (select_inputs ledger ''tx4'') = 1 \<and>
   (\<exists>st'. process_transaction (Suc 0) ledger ''tx4'' 1 0 init = Some (st', None) \<and>
           G st' = G init \<and> wallet_balances st' = wallet_balances init \<and>
           visited_transactions st' = insert ''tx4'' (visited_transactions init) \<and>
           (\<forall>x \<in> set (executed st'). x \<in> set (executed init) \<or>
              x \<in> {(1, SelectTransact ''tx4''), (1, SelectInputs ''tx4''),
                   (1, SelectOutputs ''tx4'')}))"
proof -
  have 1: "''tx4'' \<notin> visited_transactions init" by (simp add: init_def)
  have 2: "select_outputs ledger ''tx4'' = []" by (simp add: select_outputs_def ledger_def)
  have 3: "length (select_inputs ledger ''tx4'') = 1"
    by (simp add: select_inputs_def ledger_def)
  from 1 2 3 no_outputs_only_marks_visited [OF 1 2, of 0 1 0] show ?thesis by simp
qed

end
